theory Spec2Isabelle
  imports Complex_Main "HOL-Library.Word"
begin

section \<open>Numbers, vectors and matrices\<close>

text \<open>
  The program computes with C++ \<^verbatim>\<open>double\<close> values held in Armadillo vectors and
  matrices. The development reads a finite double as a \<^typ>\<open>real\<close> number. Outside
  \<open>numElec\<close> it ignores rounding, so the statements on those functions are about the
  exact arithmetic that the floating-point code approximates. \<open>numElec\<close> takes the floor
  of a quotient, which is not continuous: there the rounding of every operation decides
  the result, and the model rounds to double as the processor does. A position matrix
  has three columns (x, y, z): a row is a triple, a matrix the list of its rows. The
  drift velocity is a vector of three components.

  A division by zero raises nothing in C++: the quotient is an infinity or a NaN and the
  function returns a matrix holding it. Such a value is no real number, so the
  calibration functions return \<open>None\<close> where a divisor is zero, and so does the
  division of \<open>numElec\<close>. The other quotients of the program (by the electronics gain,
  by \<open>shape * clock\<close>, by the charge sum of a peak) are written with the division of
  \<^typ>\<open>real\<close>; no statement below depends on its value at a zero divisor.
\<close>

type_synonym vec3 = "real \<times> real \<times> real"

definition fdiv :: "real \<Rightarrow> real \<Rightarrow> real option" where
  "fdiv a b = (if b = 0 then None else Some (a / b))"

section \<open>Geometry and calibration (EventGen.cpp, lines 11-46)\<close>

text \<open>
  \<^verbatim>\<open>result = pos + pos.col(2) * -vd.t() / (clock * (1 / 10000)); result.col(2) -= pos.col(2);\<close>
  The product of the column \<open>pos.col(2)\<close> with the row \<open>-vd.t()\<close> is the matrix with
  entry \<open>z\<^sub>i * (- vd\<^sub>j)\<close>; the division is element-wise.
\<close>

definition calibrate_row :: "vec3 \<Rightarrow> vec3 \<Rightarrow> real \<Rightarrow> vec3 option" where
  "calibrate_row p vd clock =
     (case p of (x, y, z) \<Rightarrow> case vd of (vx, vy, vz) \<Rightarrow>
        (case (fdiv (z * (- vx)) (clock * (1 / 10000)),
               fdiv (z * (- vy)) (clock * (1 / 10000)),
               fdiv (z * (- vz)) (clock * (1 / 10000))) of
           (Some a, Some b, Some c) \<Rightarrow> Some (x + a, y + b, (z + c) - z)
         | _ \<Rightarrow> None))"

definition calibrate :: "vec3 list \<Rightarrow> vec3 \<Rightarrow> real \<Rightarrow> vec3 list option" where
  "calibrate pos vd clock = those (map (\<lambda>p. calibrate_row p vd clock) pos)"

text \<open>
  \<^verbatim>\<open>tbs = pos.col(2) * clock * 1e-4 / (-vd(2)) + offset;\<close>
  \<^verbatim>\<open>result = pos - tbs * -vd.t() / (clock * (1 / 10000)); result.col(2) = tbs;\<close>
  The third column of the difference is computed and then overwritten.
\<close>

definition uncalibrate_row :: "vec3 \<Rightarrow> vec3 \<Rightarrow> real \<Rightarrow> int \<Rightarrow> vec3 option" where
  "uncalibrate_row p vd clock offset =
     (case p of (x, y, z) \<Rightarrow> case vd of (vx, vy, vz) \<Rightarrow>
        (case fdiv (z * clock * (1 / 10000)) (- vz) of
           None \<Rightarrow> None
         | Some q \<Rightarrow>
             (let tbs = q + of_int offset in
              case (fdiv (tbs * (- vx)) (clock * (1 / 10000)),
                    fdiv (tbs * (- vy)) (clock * (1 / 10000)),
                    fdiv (tbs * (- vz)) (clock * (1 / 10000))) of
                (Some a, Some b, Some c) \<Rightarrow> Some (x - a, y - b, tbs)
              | _ \<Rightarrow> None)))"

definition uncalibrate :: "vec3 list \<Rightarrow> vec3 \<Rightarrow> real \<Rightarrow> int \<Rightarrow> vec3 list option" where
  "uncalibrate pos vd clock offset = those (map (\<lambda>p. uncalibrate_row p vd clock offset) pos)"

text \<open>The two compositions of the round-trip law, with the default offset 0.\<close>

definition uncalibrate_calibrate :: "vec3 list \<Rightarrow> vec3 \<Rightarrow> real \<Rightarrow> vec3 list option" where
  "uncalibrate_calibrate pos vd clock =
     (case calibrate pos vd clock of None \<Rightarrow> None | Some q \<Rightarrow> uncalibrate q vd clock 0)"

definition calibrate_uncalibrate :: "vec3 list \<Rightarrow> vec3 \<Rightarrow> real \<Rightarrow> vec3 list option" where
  "calibrate_uncalibrate pos vd clock =
     (case uncalibrate pos vd clock 0 of None \<Rightarrow> None | Some q \<Rightarrow> calibrate q vd clock)"


section \<open>Errors and configuration\<close>

text \<open>
  Armadillo checks every index and throws \<^verbatim>\<open>std::logic_error\<close> when one is out of
  bounds, and when \<open>max()\<close> is taken of a vector without elements; \<^verbatim>\<open>assert\<close> aborts.
  These are results of the model. \<open>NonFinite\<close> is no
  exception of the program: it marks a run whose drift-time division has a zero divisor,
  where the program goes on with infinities and NaNs that the model does not follow.
\<close>

datatype error = IndexOutOfBounds | AssertionFailed | NoElements | NonFinite

text \<open>A matrix row with the columns (x, y, z, numElec).\<close>

type_synonym row4 = "real \<times> real \<times> real \<times> real"

text \<open>
  A row of the diffused matrix. A coordinate is \<open>None\<close> where the double is a NaN: the
  satellite offsets are multiples of \<^verbatim>\<open>std::sqrt(z)\<close>, which is a NaN for negative \<open>z\<close>.
\<close>

type_synonym drow = "real option \<times> real option \<times> real \<times> real"

text \<open>
  Modelled from the spec: the pad plane (PadPlane.h is not among the sources). The spec
  gives it as two pure, total functions: \<open>padForCoordinate(x, y)\<close>, a pad identifier or
  the sentinel 20000, and \<open>padCenter(pad id)\<close>. Pad identifiers are \<^verbatim>\<open>uint16_t\<close>.
\<close>

type_synonym pad_t = "16 word"

record PadPlane =
  getPadNumberFromCoordinates :: "real option \<Rightarrow> real option \<Rightarrow> pad_t"
  getPadCenter :: "pad_t \<Rightarrow> real \<times> real"

text \<open>
  The fields of \<^verbatim>\<open>class EventGenerator\<close>. \<open>E_CHG\<close> stands for \<^verbatim>\<open>Constants::E_CHG\<close>, whose
  header is not among the sources; \<open>uword_of_unrepresentable\<close> is what the platform makes
  of \<^verbatim>\<open>static_cast<arma::uword>\<close> on a double outside the range of \<^verbatim>\<open>arma::uword\<close>, which
  C++ leaves undefined.
\<close>

record EventGenerator =
  vd :: vec3
  massNum :: "32 word"
  ioniz :: real
  micromegasGain :: real
  electronicsGain :: real
  tilt :: real
  diffSigma :: real
  clock :: real
  shape :: real
  pads :: PadPlane
  E_CHG :: real
  uword_of_unrepresentable :: "int \<Rightarrow> nat"

text \<open>
  \<^verbatim>\<open>res = (tmat * pos.t()).t(); res.col(1) -= tan(tilt);\<close> with the rotation matrix
  \<open>tmat\<close> of the angle \<open>- tilt\<close> about the x-axis.
\<close>

definition unTiltAndRecenter_row :: "vec3 \<Rightarrow> real \<Rightarrow> vec3" where
  "unTiltAndRecenter_row p t =
     (case p of (x, y, z) \<Rightarrow>
        (1 * x + 0 * y + 0 * z,
         (0 * x + cos (- t) * y + (- sin (- t)) * z) - tan t,
         0 * x + sin (- t) * y + cos (- t) * z))"

definition unTiltAndRecenter :: "vec3 list \<Rightarrow> real \<Rightarrow> vec3 list" where
  "unTiltAndRecenter pos t = map (\<lambda>p. unTiltAndRecenter_row p t) pos"

section \<open>Electron counts and diffusion (EventGen.cpp, lines 77-139)\<close>

subsection \<open>Rounding to double\<close>

text \<open>
  A finite double is \<open>m * 2\<^sup>e\<close> with integers \<open>\<bar>m\<bar> < 2\<^sup>5\<^sup>3\<close> and \<open>- 1074 \<le> e \<le> 971\<close>. An
  operation of IEEE 754 arithmetic returns the exact result rounded to the nearest
  double, a tie going to the even \<open>m\<close>; a result whose rounding reaches \<open>2\<^sup>1\<^sup>0\<^sup>2\<^sup>4\<close> is an
  infinity. \<open>None\<close> stands for a double that is not finite (an infinity or a NaN).
\<close>

text \<open>The number of binary digits of a positive integer.\<close>

function bit_length :: "int \<Rightarrow> nat" where
  "bit_length n = (if n \<le> 0 then 0 else Suc (bit_length (n div 2)))"
  by pat_completeness auto
termination
  by (relation "measure nat") auto

declare bit_length.simps [simp del]

definition pow2 :: "int \<Rightarrow> real" where
  "pow2 e = (if 0 \<le> e then 2 ^ nat e else 1 / 2 ^ nat (- e))"

text \<open>The binary exponent of a positive number: \<open>2\<^sup>k \<le> x < 2\<^sup>k\<^sup>+\<^sup>1\<close> for \<open>k = ilog2 x\<close>.\<close>

definition ilog2 :: "real \<Rightarrow> int" where
  "ilog2 x = (if 1 \<le> x then int (bit_length \<lfloor>x\<rfloor>) - 1
              else - int (bit_length (\<lceil>1 / x\<rceil> - 1)))"

text \<open>The nearest integer, a tie going to the even one.\<close>

definition rne :: "real \<Rightarrow> int" where
  "rne x = (let f = \<lfloor>x\<rfloor>; d = x - of_int f in
            if d < 1 / 2 then f else if 1 / 2 < d then f + 1
            else if even f then f else f + 1)"

text \<open>
  The spacing of the doubles around \<open>x\<close> is \<open>2\<^sup>e\<close> with \<open>e = ilog2 \<bar>x\<bar> - 52\<close>, and
  \<open>2\<^sup>-\<^sup>1\<^sup>0\<^sup>7\<^sup>4\<close> in the subnormal range.
\<close>

definition round_double :: "real \<Rightarrow> real option" where
  "round_double x =
     (if x = 0 then Some 0
      else
        let e = max (ilog2 \<bar>x\<bar> - 52) (- 1074);
            r = of_int (rne (x / pow2 e)) * pow2 e
        in if pow2 1024 \<le> \<bar>r\<bar> then None else Some r)"

text \<open>
  The operations of \<open>numElec\<close> on doubles. An operand that is not finite gives a result
  that is not finite: no operation of \<open>numElec\<close> divides by an infinity. A division by
  zero gives an infinity or a NaN.
\<close>

definition fl_mul :: "real option \<Rightarrow> real option \<Rightarrow> real option" where
  "fl_mul a b = (case (a, b) of (Some x, Some y) \<Rightarrow> round_double (x * y) | _ \<Rightarrow> None)"

definition fl_sub :: "real option \<Rightarrow> real option \<Rightarrow> real option" where
  "fl_sub a b = (case (a, b) of (Some x, Some y) \<Rightarrow> round_double (x - y) | _ \<Rightarrow> None)"

definition fl_div :: "real option \<Rightarrow> real option \<Rightarrow> real option" where
  "fl_div a b =
     (case (a, b) of
        (Some x, Some y) \<Rightarrow> if y = 0 then None else round_double (x / y)
      | _ \<Rightarrow> None)"

definition fl_neg :: "real option \<Rightarrow> real option" where
  "fl_neg a = map_option uminus a"

definition fl_floor :: "real option \<Rightarrow> real option" where
  "fl_floor a = map_option (\<lambda>x. of_int \<lfloor>x\<rfloor>) a"

subsection \<open>numElec\<close>

text \<open>\<^verbatim>\<open>arma::diff\<close>: the differences of neighbours, one element fewer.\<close>

definition diff :: "real option list \<Rightarrow> real option list" where
  "diff xs = map (\<lambda>i. fl_sub (xs ! Suc i) (xs ! i)) [0..<length xs - 1]"

text \<open>\<^verbatim>\<open>en * 1e6 * massNum\<close>, element by element; \<open>massNum\<close> is converted to double.\<close>

definition scaled :: "'a EventGenerator_scheme \<Rightarrow> real \<Rightarrow> real option" where
  "scaled g e = fl_mul (fl_mul (Some e) (Some 1000000)) (Some (of_nat (unat (massNum g))))"

text \<open>
  \<^verbatim>\<open>result(arma::span(1, numPts-1)) = arma::floor(-arma::diff(en * 1e6 * massNum) / ioniz);\<close>
  The span is checked against the vector: with \<open>numPts = 0\<close> the unsigned \<open>numPts - 1\<close>
  wraps and the span ends beyond the vector, with \<open>numPts = 1\<close> it starts beyond its end.
  The elements of \<open>en\<close> are finite doubles.
\<close>

definition numElec :: "'a EventGenerator_scheme \<Rightarrow> real list \<Rightarrow> error + real option list" where
  "numElec g en =
     (let numPts = length en in
      if numPts < 2 then Inl IndexOutOfBounds
      else Inr (take 1 (replicate numPts (Some 0)) @
                map (\<lambda>d. fl_floor (fl_div (fl_neg d) (Some (ioniz g))))
                    (diff (map (scaled g) en))))"

text \<open>
  The count that comes from two neighbouring energies, and the condition that none of
  the operations behind it rounds or divides by zero.
\<close>

definition electron_count :: "'a EventGenerator_scheme \<Rightarrow> real \<Rightarrow> real \<Rightarrow> real option" where
  "electron_count g prev cur =
     fl_floor (fl_div (fl_neg (fl_sub (scaled g cur) (scaled g prev))) (Some (ioniz g)))"

definition exact_ops :: "'a EventGenerator_scheme \<Rightarrow> real \<Rightarrow> real \<Rightarrow> bool" where
  "exact_ops g prev cur =
     (let m = of_nat (unat (massNum g)) :: real in
      round_double (cur * 1000000) = Some (cur * 1000000) \<and>
      round_double (cur * 1000000 * m) = Some (cur * 1000000 * m) \<and>
      round_double (prev * 1000000) = Some (prev * 1000000) \<and>
      round_double (prev * 1000000 * m) = Some (prev * 1000000 * m) \<and>
      round_double (cur * 1000000 * m - prev * 1000000 * m)
        = Some (cur * 1000000 * m - prev * 1000000 * m) \<and>
      ioniz g \<noteq> 0 \<and>
      round_double (- (cur * 1000000 * m - prev * 1000000 * m) / ioniz g)
        = Some (- (cur * 1000000 * m - prev * 1000000 * m) / ioniz g))"

text \<open>
  The rows of \<open>prepareTrack\<close> hold real numbers: a count that is not finite is carried
  as 0 there.
\<close>

definition count_value :: "real option \<Rightarrow> real" where
  "count_value c = (case c of Some v \<Rightarrow> v | None \<Rightarrow> 0)"

definition fsqrt :: "real \<Rightarrow> real option" where
  "fsqrt z = (if z < 0 then None else Some (sqrt z))"

definition diffPts :: "real \<Rightarrow> (real \<times> real) list" where
  "diffPts s =
     (let diffSigmaDiag = s * sqrt 2 in
      [(s, 0), (- s, 0), (0, s), (0, - s),
       (diffSigmaDiag, diffSigmaDiag), (diffSigmaDiag, - diffSigmaDiag),
       (- diffSigmaDiag, diffSigmaDiag), (- diffSigmaDiag, - diffSigmaDiag)])"

definition centerAmpl :: real where
  "centerAmpl = 4 / 10"

definition diffAmpl :: "real \<Rightarrow> real" where
  "diffAmpl numDiffPts = (1 - centerAmpl) / numDiffPts"

definition center_row :: "row4 \<Rightarrow> drow" where
  "center_row r = (case r of (x, y, z, n) \<Rightarrow> (Some x, Some y, z, n * centerAmpl))"

definition satellite_row :: "real \<Rightarrow> real \<times> real \<Rightarrow> row4 \<Rightarrow> drow" where
  "satellite_row a pt r =
     (case r of (x, y, z, n) \<Rightarrow> case pt of (ox, oy) \<Rightarrow>
        (case fsqrt z of
           None \<Rightarrow> (None, None, z, n * a)
         | Some q \<Rightarrow> (Some (x + ox * q), Some (y + oy * q), z, n * a)))"

text \<open>
  The result holds the input rows first (amplitude times \<open>centerAmpl\<close>), then one block
  of \<open>numPts\<close> rows for each of the eight offsets: row \<open>numPts * (ptIdx + 1) + i\<close> comes
  from input row \<open>i\<close>. \<^verbatim>\<open>result.rows(0, numPts-1)\<close> is out of bounds for an empty input.
\<close>

definition diffuseElectrons :: "'a EventGenerator_scheme \<Rightarrow> row4 list \<Rightarrow> error + drow list" where
  "diffuseElectrons g tr =
     (let pts = diffPts (diffSigma g);
          numDiffPts = length pts;
          numPts = length tr in
      if numPts = 0 then Inl IndexOutOfBounds
      else Inr (map center_row tr @
                concat (map (\<lambda>pt. map (satellite_row (diffAmpl (of_nat numDiffPts)) pt) tr) pts)))"

text \<open>
  \<^verbatim>\<open>prepareTrack\<close>: the assertion on the sizes, then un-tilting, uncalibration with the
  default offset 0, the electron counts and the diffusion. An exception of \<open>numElec\<close> is
  reported before \<open>NonFinite\<close>, which is no exception.
\<close>

definition prepareTrack :: "'a EventGenerator_scheme \<Rightarrow> vec3 list \<Rightarrow> real list \<Rightarrow> error + drow list" where
  "prepareTrack g pos en =
     (if length en \<noteq> length pos then Inl AssertionFailed
      else
        let posTilted = unTiltAndRecenter pos (tilt g);
            uncalPts = uncalibrate posTilted (vd g) (clock g) 0
        in case numElec g en of
             Inl e \<Rightarrow> Inl e
           | Inr ne \<Rightarrow>
               (case uncalPts of
                  None \<Rightarrow> Inl NonFinite
                | Some u \<Rightarrow>
                    diffuseElectrons g
                      (map (\<lambda>((x, y, z), n). (x, y, z, count_value n)) (zip u ne))))"

text \<open>The columns of a diffused row.\<close>

definition row_x :: "drow \<Rightarrow> real option" where "row_x r = fst r"
definition row_y :: "drow \<Rightarrow> real option" where "row_y r = fst (snd r)"
definition row_z :: "drow \<Rightarrow> real" where "row_z r = fst (snd (snd r))"
definition row_n :: "drow \<Rightarrow> real" where "row_n r = snd (snd (snd r))"

section \<open>Pulse and electronics (EventGen.cpp, lines 58-75 and 141-149)\<close>

definition approxSin :: "real \<Rightarrow> real" where
  "approxSin t = t - t * t * t / 6 + t * t * t * t * t / 120 - t * t * t * t * t * t * t / 5040"

text \<open>
  \<^verbatim>\<open>static_cast<arma::uword>\<close> of a double that holds an integer: the value itself when
  a 64-bit unsigned integer can hold it; otherwise the conversion is undefined in C++,
  and the model takes the outcome from the platform function \<open>ub\<close>.
\<close>

definition to_uword :: "(int \<Rightarrow> nat) \<Rightarrow> int \<Rightarrow> nat" where
  "to_uword ub c = (if 0 \<le> c \<and> c < 2 ^ 64 then nat c else ub c mod 2 ^ 64)"

text \<open>The body of the loop of \<open>elecPulse\<close>: the sample at index \<open>i\<close>.\<close>

definition pulse_sample :: "real \<Rightarrow> real \<Rightarrow> real \<Rightarrow> nat \<Rightarrow> real" where
  "pulse_sample amplitude s offset i =
     (let t = (of_nat i - offset) / s in
      amplitude * exp (- 3 * t) * approxSin t * t * t * t / (44 / 1000))"

text \<open>\<^verbatim>\<open>for (arma::uword i = firstPt; i < res.n_rows; i++) res(i) = ...\<close>\<close>

function elecPulse_loop :: "real \<Rightarrow> real \<Rightarrow> real \<Rightarrow> nat \<Rightarrow> real list \<Rightarrow> real list" where
  "elecPulse_loop amplitude s offset i res =
     (if i < length res
      then elecPulse_loop amplitude s offset (Suc i) (res[i := pulse_sample amplitude s offset i])
      else res)"
  by pat_completeness auto
termination
  by (relation "measure (\<lambda>(amplitude, s, offset, i, res). length res - i)") auto

declare elecPulse_loop.simps [simp del]

definition elecPulse :: "(int \<Rightarrow> nat) \<Rightarrow> real \<Rightarrow> real \<Rightarrow> real \<Rightarrow> real \<Rightarrow> real list" where
  "elecPulse ub amplitude shp clk offset =
     (let res = replicate 512 0;
          s = shp * clk;
          firstPt = to_uword ub \<lceil>offset\<rceil>
      in elecPulse_loop amplitude s offset firstPt res)"

definition conversionFactor :: "'a EventGenerator_scheme \<Rightarrow> real" where
  "conversionFactor g = micromegasGain g * E_CHG g / electronicsGain g * 4096"

section \<open>Events (EventGen.cpp, lines 159-185)\<close>

text \<open>
  An event is a \<^verbatim>\<open>std::map<pad_t, arma::vec>\<close>: unique keys, iterated in increasing
  order. It is a list of pairs kept sorted by key.
\<close>

type_synonym event = "(pad_t \<times> real list) list"

fun event_insert :: "pad_t \<Rightarrow> real list \<Rightarrow> event \<Rightarrow> event" where
  "event_insert k v [] = [(k, v)]"
| "event_insert k v ((k', v') # m) =
     (if k < k' then (k, v) # (k', v') # m
      else if k = k' then (k, v) # m
      else (k', v') # event_insert k v m)"

definition vec_add :: "real list \<Rightarrow> real list \<Rightarrow> real list" where
  "vec_add a b = map (\<lambda>(x, y). x + y) (zip a b)"

text \<open>
  One turn of the loop of \<open>makeEvent\<close>. \<^verbatim>\<open>result[pad]\<close> inserts an empty vector when the
  key is absent; an empty vector is then set to 512 zeros, before the test of the time
  bucket.
\<close>

definition makeEvent_step :: "'a EventGenerator_scheme \<Rightarrow> real \<Rightarrow> drow \<Rightarrow> event \<Rightarrow> event" where
  "makeEvent_step g convFactor r result =
     (let pad = getPadNumberFromCoordinates (pads g) (row_x r) (row_y r) in
      if pad \<noteq> 20000 then
        let found = (case map_of result pad of None \<Rightarrow> [] | Some sig \<Rightarrow> sig);
            padSignal = (if found = [] then replicate 512 0 else found);
            result1 = event_insert pad padSignal result;
            offset = row_z r
        in if offset > 511 then result1
           else
             let pulse = elecPulse (uword_of_unrepresentable g) (convFactor * row_n r)
                           (shape g) (clock g) offset
             in event_insert pad (vec_add padSignal pulse) result1
      else result)"

text \<open>\<^verbatim>\<open>for (arma::uword i = 0; i < uncal.n_rows - 1; i++)\<close>\<close>

function makeEvent_loop ::
  "'a EventGenerator_scheme \<Rightarrow> real \<Rightarrow> drow list \<Rightarrow> nat \<Rightarrow> event \<Rightarrow> event" where
  "makeEvent_loop g convFactor uncal i result =
     (if i < length uncal - 1
      then makeEvent_loop g convFactor uncal (Suc i) (makeEvent_step g convFactor (uncal ! i) result)
      else result)"
  by pat_completeness auto
termination
  by (relation "measure (\<lambda>(g, convFactor, uncal, i, result). length uncal - 1 - i)") auto

declare makeEvent_loop.simps [simp del]

text \<open>
  On a matrix without rows the unsigned \<open>n_rows - 1\<close> wraps and the first access is out
  of bounds; \<open>prepareTrack\<close> never returns such a matrix.
\<close>

definition makeEvent :: "'a EventGenerator_scheme \<Rightarrow> vec3 list \<Rightarrow> real list \<Rightarrow> error + event" where
  "makeEvent g pos en =
     (case prepareTrack g pos en of
        Inl e \<Rightarrow> Inl e
      | Inr uncal \<Rightarrow>
          if uncal = [] then Inl IndexOutOfBounds
          else Inr (makeEvent_loop g (conversionFactor g) uncal 0 []))"

text \<open>The signal of a pad in an event, all zero for a pad that is no key.\<close>

definition pad_signal :: "event \<Rightarrow> pad_t \<Rightarrow> real list" where
  "pad_signal evt pad = (case map_of evt pad of None \<Rightarrow> replicate 512 0 | Some sig \<Rightarrow> sig)"

text \<open>The pad of a diffused row, and the rows that add a pulse to their pad.\<close>

definition row_pad :: "'a EventGenerator_scheme \<Rightarrow> drow \<Rightarrow> pad_t" where
  "row_pad g r = getPadNumberFromCoordinates (pads g) (row_x r) (row_y r)"

definition contributes :: "'a EventGenerator_scheme \<Rightarrow> drow \<Rightarrow> bool" where
  "contributes g r = (row_pad g r \<noteq> 20000 \<and> \<not> row_z r > 511)"

text \<open>Every signal held by the event has 512 samples.\<close>

definition event_ok :: "event \<Rightarrow> bool" where
  "event_ok evt = (\<forall>(k, sig) \<in> set evt. length sig = 512)"

section \<open>Peak table (EventGen.cpp, lines 207-237)\<close>

text \<open>\<^verbatim>\<open>sig.max()\<close>, on a vector that has an element.\<close>

definition vmax :: "real list \<Rightarrow> real" where
  "vmax sig = fold max (tl sig) (hd sig)"

definition pkPts :: "real list \<Rightarrow> nat list" where
  "pkPts sig = filter (\<lambda>i. sig ! i > (3 / 10) * vmax sig) [0..<length sig]"

definition pkVals :: "real list \<Rightarrow> real list" where
  "pkVals sig = map (\<lambda>i. sig ! i) (pkPts sig)"

definition dot :: "nat list \<Rightarrow> real list \<Rightarrow> real" where
  "dot is vs = sum_list (map (\<lambda>(i, v). of_nat i * v) (zip is vs))"

type_synonym peak_row = "real \<times> real \<times> real \<times> real \<times> real"

text \<open>The row for a pad that passes the floor.\<close>

definition peak_row_of :: "'a EventGenerator_scheme \<Rightarrow> pad_t \<Rightarrow> real list \<Rightarrow> peak_row" where
  "peak_row_of g padNum sig =
     (let pkCtrGrav = dot (pkPts sig) (pkVals sig) / sum_list (pkVals sig);
          maxVal = vmax sig;
          xy = getPadCenter (pads g) padNum
      in (fst xy, snd xy, pkCtrGrav, maxVal, of_nat (unat padNum)))"

text \<open>
  \<^verbatim>\<open>for (const auto& pair : evt)\<close>, with \<^verbatim>\<open>continue\<close> below the floor \<open>1e-3\<close>. \<open>max()\<close> of
  a vector without elements throws.
\<close>

fun peaks_loop :: "'a EventGenerator_scheme \<Rightarrow> event \<Rightarrow> peak_row list \<Rightarrow> error + peak_row list" where
  "peaks_loop g [] rows = Inr rows"
| "peaks_loop g ((padNum, sig) # evt) rows =
     (if sig = [] then Inl NoElements
      else
        let total = sum_list (pkVals sig) in
        if total < 1 / 1000 then peaks_loop g evt rows
        else peaks_loop g evt (rows @ [peak_row_of g padNum sig]))"

definition makePeaksTableFromSimulation ::
  "'a EventGenerator_scheme \<Rightarrow> vec3 list \<Rightarrow> real list \<Rightarrow> error + peak_row list" where
  "makePeaksTableFromSimulation g pos en =
     (case makeEvent g pos en of
        Inl e \<Rightarrow> Inl e
      | Inr evt \<Rightarrow> peaks_loop g evt [])"

text \<open>
  The peak table in the words of the specification: the samples of a signal that exceed
  30% of its maximum, their charge sum, and their charge-weighted centroid.
\<close>

definition peak_set :: "real list \<Rightarrow> nat set" where
  "peak_set sig = Set.filter (\<lambda>i. sig ! i > (3 / 10) * Max (set sig)) (set [0..<length sig])"

definition thresholded_sum :: "real list \<Rightarrow> real" where
  "thresholded_sum sig = (\<Sum>i \<in> peak_set sig. sig ! i)"

definition centroid :: "real list \<Rightarrow> real" where
  "centroid sig = (\<Sum>i \<in> peak_set sig. of_nat i * sig ! i) / thresholded_sum sig"

definition spec_peak_row :: "'a EventGenerator_scheme \<Rightarrow> pad_t \<times> real list \<Rightarrow> peak_row" where
  "spec_peak_row g pr =
     (case pr of (padNum, sig) \<Rightarrow>
        (fst (getPadCenter (pads g) padNum), snd (getPadCenter (pads g) padNum),
         centroid sig, Max (set sig), of_nat (unat padNum)))"

definition above_floor :: "pad_t \<times> real list \<Rightarrow> bool" where
  "above_floor pr = (\<not> thresholded_sum (snd pr) < 1 / 1000)"

section \<open>Monte Carlo minimizer (MCminimizer.h)\<close>

text \<open>
  Modelled from the spec: \<open>MCminimizer::makeParams\<close> and \<open>MCminimizer::minimize\<close>, which
  the header declares and whose bodies (MCminimizer.cpp) are not among the sources. The
  spec: draw \<open>numPts\<close> parameter vectors from independent per-component distributions
  centered at \<open>ctr\<close> with the spread \<open>sigma\<close>; clip every component into
  \<open>[mins, maxes]\<close>; the vector of the lowest deviation is the new center; \<open>sigma\<close> is
  multiplied by \<open>redFactor\<close>; this runs \<open>numIters\<close> times. The vectors \<open>ctr\<close>, \<open>sigma\<close>,
  \<open>mins\<close> and \<open>maxes\<close> share one shape.

  The random deviates are an argument of the model (one list per sampled vector, one
  deviate per component, centered at 0 with unit spread), and so is the deviation score.
  An interval \<open>[mins(i), maxes(i)]\<close> with \<open>mins(i) > maxes(i)\<close> is empty and nothing can be
  clipped into it: the model reports \<open>BadBounds\<close>.
\<close>

datatype mc_error = SizeMismatch | BadBounds | NoCandidates

definition clip :: "real \<Rightarrow> real \<Rightarrow> real \<Rightarrow> real" where
  "clip lo hi x = (if x < lo then lo else if hi < x then hi else x)"

definition makeParams ::
  "real list \<Rightarrow> real list \<Rightarrow> nat \<Rightarrow> real list \<Rightarrow> real list \<Rightarrow> real list list
   \<Rightarrow> mc_error + real list list" where
  "makeParams ctr sigma numSets mins maxes draws =
     (let numVars = length ctr in
      if length sigma \<noteq> numVars \<or> length mins \<noteq> numVars \<or> length maxes \<noteq> numVars
         \<or> length draws \<noteq> numSets \<or> (\<exists>d \<in> set draws. length d \<noteq> numVars)
      then Inl SizeMismatch
      else if \<exists>i \<in> set [0..<numVars]. maxes ! i < mins ! i then Inl BadBounds
      else Inr (map (\<lambda>d. map (\<lambda>i. clip (mins ! i) (maxes ! i) (ctr ! i + sigma ! i * d ! i))
                             [0..<numVars])
                    draws))"

text \<open>The first of the vectors of the lowest score.\<close>

definition best_of :: "(real list \<Rightarrow> real) \<Rightarrow> real list list \<Rightarrow> real list" where
  "best_of score ps = fold (\<lambda>v b. if score v < score b then v else b) (tl ps) (hd ps)"

text \<open>
  One iteration for each element of \<open>draws\<close>; the result is the last center and the
  history of all the sampled vectors. An iteration without a sampled vector has no
  winner.
\<close>

fun minimize_loop ::
  "(real list \<Rightarrow> real) \<Rightarrow> real list \<Rightarrow> real list \<Rightarrow> nat \<Rightarrow> real \<Rightarrow> real list list list
   \<Rightarrow> real list \<Rightarrow> real list \<Rightarrow> real list list \<Rightarrow> mc_error + (real list \<times> real list list)" where
  "minimize_loop score mins maxes numPts redFactor [] ctr sigma hist = Inr (ctr, hist)"
| "minimize_loop score mins maxes numPts redFactor (d # ds) ctr sigma hist =
     (case makeParams ctr sigma numPts mins maxes d of
        Inl e \<Rightarrow> Inl e
      | Inr ps \<Rightarrow>
          if ps = [] then Inl NoCandidates
          else minimize_loop score mins maxes numPts redFactor ds
                 (best_of score ps) (map (\<lambda>s. s * redFactor) sigma) (hist @ ps))"

definition minimize ::
  "(real list \<Rightarrow> real) \<Rightarrow> real list \<Rightarrow> real list \<Rightarrow> real list \<Rightarrow> real list \<Rightarrow> nat \<Rightarrow> nat \<Rightarrow> real
   \<Rightarrow> real list list list \<Rightarrow> mc_error + (real list \<times> real list list)" where
  "minimize score ctr0 sigma0 mins maxes numIters numPts redFactor draws =
     (if length draws \<noteq> numIters then Inl SizeMismatch
      else minimize_loop score mins maxes numPts redFactor draws ctr0 sigma0 [])"

text \<open>Component-wise \<open>mins \<le> v \<le> maxes\<close>.\<close>

definition in_bounds :: "real list \<Rightarrow> real list \<Rightarrow> real list \<Rightarrow> bool" where
  "in_bounds mins maxes v =
     (length v = length mins \<and> (\<forall>i \<in> set [0..<length v]. mins ! i \<le> v ! i \<and> v ! i \<le> maxes ! i))"

section \<open>A concrete configuration\<close>

text \<open>
  A generator on which the theorems are instantiated: drift along \<open>- z\<close>, clock 1 MHz
  given in Hz, no tilt, no diffusion width, and a pad plane of two pads split at
  \<open>x = 0\<close> with nothing at \<open>x > 100\<close>.
\<close>

definition two_pads :: PadPlane where
  "two_pads =
     \<lparr>getPadNumberFromCoordinates =
        (\<lambda>x y. case x of None \<Rightarrow> 20000
                | Some a \<Rightarrow> if 100 < a then 20000 else if a < 0 then 1 else 2),
      getPadCenter = (\<lambda>p. if p = 1 then (- 50, 0) else (50, 0))\<rparr>"

definition sample_generator :: EventGenerator where
  "sample_generator =
     \<lparr>vd = (0, 0, - 1), massNum = 1, ioniz = 2, micromegasGain = 1,
      electronicsGain = 1, tilt = 0, diffSigma = 0, clock = 1000000, shape = 1,
      pads = two_pads, E_CHG = 1, uword_of_unrepresentable = (\<lambda>i. 0)\<rparr>"

section \<open>Round trip of calibration\<close>

lemma calibrate_row_eq:
  "clk \<noteq> 0 \<Longrightarrow>
   calibrate_row (x, y, z) (vx, vy, vz) clk =
     Some (x + z * (- vx) / (clk * (1 / 10000)), y + z * (- vy) / (clk * (1 / 10000)),
           z * (- vz) / (clk * (1 / 10000)))"
  by (simp add: calibrate_row_def fdiv_def)

lemma uncalibrate_row_eq:
  "clk \<noteq> 0 \<Longrightarrow> vz \<noteq> 0 \<Longrightarrow>
   uncalibrate_row (x, y, z) (vx, vy, vz) clk offset =
     Some (x - (z * clk * (1 / 10000) / (- vz) + of_int offset) * (- vx) / (clk * (1 / 10000)),
           y - (z * clk * (1 / 10000) / (- vz) + of_int offset) * (- vy) / (clk * (1 / 10000)),
           z * clk * (1 / 10000) / (- vz) + of_int offset)"
  by (simp add: uncalibrate_row_def fdiv_def Let_def)

lemma uncalibrate_calibrate_row:
  assumes "clk \<noteq> 0" "snd (snd v) \<noteq> 0"
  shows "Option.bind (calibrate_row p v clk) (\<lambda>q. uncalibrate_row q v clk 0) = Some p"
proof -
  obtain x y z where p: "p = (x, y, z)" by (cases p) auto
  obtain vx vy vz where v: "v = (vx, vy, vz)" by (cases v) auto
  from assms v have vz: "vz \<noteq> 0" by simp
  show ?thesis
    using assms(1) vz unfolding p v
    by (simp add: calibrate_row_eq uncalibrate_row_eq field_simps)
qed

lemma calibrate_uncalibrate_row:
  assumes "clk \<noteq> 0" "snd (snd v) \<noteq> 0"
  shows "Option.bind (uncalibrate_row p v clk 0) (\<lambda>q. calibrate_row q v clk) = Some p"
proof -
  obtain x y z where p: "p = (x, y, z)" by (cases p) auto
  obtain vx vy vz where v: "v = (vx, vy, vz)" by (cases v) auto
  from assms v have vz: "vz \<noteq> 0" by simp
  show ?thesis
    using assms(1) vz unfolding p v
    by (simp add: calibrate_row_eq uncalibrate_row_eq field_simps)
qed

lemma those_bind_roundtrip:
  "(\<And>p. Option.bind (f p) g = Some p) \<Longrightarrow>
   (case those (map f ps) of None \<Rightarrow> None | Some q \<Rightarrow> those (map g q)) = Some ps"
proof (induction ps)
  case Nil
  then show ?case by simp
next
  case (Cons p ps)
  from Cons.prems [of p] obtain q where q: "f p = Some q" "g q = Some p"
    by (cases "f p") auto
  from Cons.IH [OF Cons.prems] obtain qs
    where qs: "those (map f ps) = Some qs" "those (map g qs) = Some ps"
    by (cases "those (map f ps)") auto
  show ?case by (simp add: q qs)
qed

text \<open>
  Claim C1, as amended. For a position matrix \<open>p\<close>, a drift velocity whose z-component is
  not zero and a clock frequency that is not zero, uncalibrating (offset 0) the
  calibrated matrix gives \<open>p\<close> back, and so does calibrating the uncalibrated matrix.
\<close>

theorem calibrate_roundtrip:
  assumes "clk \<noteq> 0" and "snd (snd v) \<noteq> 0"
  shows "uncalibrate_calibrate p v clk = Some p \<and> calibrate_uncalibrate p v clk = Some p"
  unfolding uncalibrate_calibrate_def calibrate_uncalibrate_def calibrate_def uncalibrate_def
  using those_bind_roundtrip [of "\<lambda>p. calibrate_row p v clk" "\<lambda>q. uncalibrate_row q v clk 0" p]
        those_bind_roundtrip [of "\<lambda>p. uncalibrate_row p v clk 0" "\<lambda>q. calibrate_row q v clk" p]
        uncalibrate_calibrate_row [OF assms] calibrate_uncalibrate_row [OF assms]
  by simp

theorem calibrate_roundtrip_witness:
  "(1000000::real) \<noteq> 0 \<and> snd (snd (0::real, 0::real, - 1::real)) \<noteq> 0 \<and>
   uncalibrate_calibrate [(1, 2, 3)] (0, 0, - 1) 1000000 = Some [(1, 2, 3)] \<and>
   calibrate_uncalibrate [(1, 2, 3)] (0, 0, - 1) 1000000 = Some [(1, 2, 3)]"
  using calibrate_roundtrip [of 1000000 "(0, 0, - 1)" "[(1, 2, 3)]"] by simp

text \<open>
  Claim C1 as stated quantifies over every clock frequency. With the clock 0 the
  quotients by \<open>clock * 1e-4\<close> are not finite and the round trip does not give the
  position back.
\<close>

theorem calibrate_roundtrip_clock_zero:
  "uncalibrate_calibrate [(1, 2, 3)] (0, 0, - 1) 0 \<noteq> Some [(1, 2, 3)]"
  by (simp add: uncalibrate_calibrate_def calibrate_def calibrate_row_def fdiv_def)


section \<open>Rounding to double\<close>

lemma bit_length_bounds:
  "0 < n \<Longrightarrow> 2 ^ (bit_length n - 1) \<le> n \<and> n < 2 ^ bit_length n"
proof (induction n rule: bit_length.induct)
  case (1 n)
  show ?case
  proof (cases "n div 2 \<le> 0")
    case True
    with "1.prems" have "n = 1" by linarith
    then show ?thesis
      by (simp add: bit_length.simps [of 1] bit_length.simps [of 0])
  next
    case False
    then have pos: "0 < n div 2" by simp
    from "1.prems" have n: "\<not> n \<le> 0" by simp
    from "1.IH" [OF n pos] have
      lo: "2 ^ (bit_length (n div 2) - 1) \<le> n div 2" and hi: "n div 2 < 2 ^ bit_length (n div 2)"
      by simp_all
    have k: "0 < bit_length (n div 2)"
      using pos by (simp add: bit_length.simps [of "n div 2"])
    have b: "bit_length n = Suc (bit_length (n div 2))"
      using n by (simp add: bit_length.simps [of n])
    from k have p: "(2::int) ^ bit_length (n div 2) = 2 * 2 ^ (bit_length (n div 2) - 1)"
      by (cases "bit_length (n div 2)") simp_all
    from lo have "2 * 2 ^ (bit_length (n div 2) - 1) \<le> n" by linarith
    moreover from hi have "n < 2 * 2 ^ bit_length (n div 2)" by linarith
    ultimately show ?thesis by (simp add: b p)
  qed
qed

text \<open>\<open>ilog2\<close> is the binary exponent.\<close>

lemma ilog2_bounds:
  assumes "0 < x"
  shows "pow2 (ilog2 x) \<le> x \<and> x < pow2 (ilog2 x + 1)"
proof (cases "1 \<le> x")
  case True
  let ?n = "\<lfloor>x\<rfloor>"
  let ?k = "bit_length ?n"
  from True have n: "0 < ?n" by simp
  from bit_length_bounds [OF n] have lo: "2 ^ (?k - 1) \<le> ?n" and hi: "?n < 2 ^ ?k"
    by simp_all
  have k: "0 < ?k" using n by (simp add: bit_length.simps [of ?n])
  have "(2::real) ^ (?k - 1) = of_int (2 ^ (?k - 1))" by simp
  also have "\<dots> \<le> of_int ?n" using lo by (simp only: of_int_le_iff)
  also have "\<dots> \<le> x" by simp
  finally have a: "(2::real) ^ (?k - 1) \<le> x" .
  from hi have "?n + 1 \<le> 2 ^ ?k" by simp
  then have "of_int (?n + 1) \<le> (of_int (2 ^ ?k) :: real)" by (simp only: of_int_le_iff)
  then have "of_int ?n + 1 \<le> (2::real) ^ ?k" by simp
  moreover have "x < of_int ?n + 1" by linarith
  ultimately have b: "x < 2 ^ ?k" by linarith
  have i: "ilog2 x = int ?k - 1" using True by (simp add: ilog2_def)
  have "nat (int ?k - 1) = ?k - 1" by simp
  with a b k show ?thesis by (simp add: i pow2_def)
next
  case False
  with assms have x: "0 < x" "x < 1" by simp_all
  let ?y = "1 / x"
  let ?n = "\<lceil>?y\<rceil> - 1"
  let ?k = "bit_length ?n"
  from x have y: "1 < ?y" by simp
  then have n: "0 < ?n" by linarith
  from bit_length_bounds [OF n] have lo: "2 ^ (?k - 1) \<le> ?n" and hi: "?n < 2 ^ ?k"
    by simp_all
  have k: "0 < ?k" using n by (simp add: bit_length.simps [of ?n])
  have "(2::real) ^ (?k - 1) = of_int (2 ^ (?k - 1))" by simp
  also have "\<dots> \<le> of_int ?n" using lo by (simp only: of_int_le_iff)
  also have "\<dots> < ?y" by linarith
  finally have a: "(2::real) ^ (?k - 1) < ?y" .
  from hi have "?n + 1 \<le> 2 ^ ?k" by simp
  then have "of_int (?n + 1) \<le> (of_int (2 ^ ?k) :: real)" by (simp only: of_int_le_iff)
  then have "of_int ?n + 1 \<le> (2::real) ^ ?k" by simp
  moreover have "?y \<le> of_int ?n + 1" by linarith
  ultimately have b: "?y \<le> 2 ^ ?k" by linarith
  from a x have a': "x < 1 / 2 ^ (?k - 1)"
    by (simp add: field_simps)
  from b x have b': "1 / 2 ^ ?k \<le> x"
    by (simp add: field_simps)
  have i: "ilog2 x = - int ?k" using False by (simp add: ilog2_def)
  show ?thesis
  proof (cases "?k = 1")
    case True
    with a' b' show ?thesis by (simp add: i pow2_def)
  next
    case False
    with k have "nat (int ?k - 1) = ?k - 1" "\<not> int ?k \<le> 1" by simp_all
    with a' b' k show ?thesis by (simp add: i pow2_def)
  qed
qed

lemma rne_nearest: "\<bar>of_int (rne y) - y\<bar> \<le> 1 / 2"
proof -
  have "of_int \<lfloor>y\<rfloor> \<le> y" "y < of_int \<lfloor>y\<rfloor> + 1" by linarith+
  then show ?thesis
    by (auto simp: rne_def Let_def)
qed

lemma pow2_pos: "0 < pow2 e"
  by (simp add: pow2_def)

text \<open>
  A rounded value is a multiple of the spacing, at most half a spacing away from the
  exact one.
\<close>

lemma round_double_nearest:
  assumes "round_double x = Some r" and "x \<noteq> 0"
  shows "\<exists>m. r = of_int m * pow2 (max (ilog2 \<bar>x\<bar> - 52) (- 1074)) \<and>
             \<bar>r - x\<bar> \<le> pow2 (max (ilog2 \<bar>x\<bar> - 52) (- 1074)) / 2"
proof -
  let ?e = "max (ilog2 \<bar>x\<bar> - 52) (- 1074)"
  let ?m = "rne (x / pow2 ?e)"
  from assms have r: "r = of_int ?m * pow2 ?e"
    by (simp add: round_double_def Let_def split: if_splits)
  have "\<bar>of_int ?m - x / pow2 ?e\<bar> \<le> 1 / 2" by (rule rne_nearest)
  then have "\<bar>of_int ?m - x / pow2 ?e\<bar> * pow2 ?e \<le> 1 / 2 * pow2 ?e"
    using pow2_pos [of ?e] by (simp only: mult_le_cancel_right_pos)
  moreover have "\<bar>of_int ?m - x / pow2 ?e\<bar> * pow2 ?e = \<bar>of_int ?m * pow2 ?e - x\<bar>"
  proof -
    have "\<bar>of_int ?m - x / pow2 ?e\<bar> * pow2 ?e = \<bar>(of_int ?m - x / pow2 ?e) * pow2 ?e\<bar>"
      using pow2_pos [of ?e] by (simp add: abs_mult)
    also have "(of_int ?m - x / pow2 ?e) * pow2 ?e = of_int ?m * pow2 ?e - x"
      using pow2_pos [of ?e] by (simp add: field_simps)
    finally show ?thesis .
  qed
  ultimately have "\<bar>r - x\<bar> \<le> pow2 ?e / 2" by (simp add: r)
  with r show ?thesis by blast
qed

text \<open>The equations that evaluate a rounding on numerals.\<close>

lemmas round_double_eval =
  round_double_def ilog2_def rne_def pow2_def bit_length.simps Let_def

section \<open>Electron counts\<close>

lemma length_diff: "length (diff xs) = length xs - 1"
  by (simp add: diff_def)

lemma nth_diff: "i < length xs - 1 \<Longrightarrow> diff xs ! i = fl_sub (xs ! Suc i) (xs ! i)"
  by (simp add: diff_def)

lemma numElec_Inr:
  assumes "2 \<le> length en"
  shows "numElec g en =
     Inr (Some 0 # map (\<lambda>d. fl_floor (fl_div (fl_neg d) (Some (ioniz g))))
                      (diff (map (scaled g) en)))"
proof -
  have "min 1 (length en) = Suc 0" using assms by simp
  then have "take 1 (replicate (length en) (Some (0::real))) = [Some 0]" by simp
  then show ?thesis
    using assms by (simp add: numElec_def Let_def)
qed

lemma length_numElec: "numElec g en = Inr r \<Longrightarrow> length r = length en \<and> 2 \<le> length en"
  by (auto simp: numElec_def Let_def length_diff split: if_splits)

lemma electron_count_exact:
  assumes "exact_ops g prev cur"
  shows "electron_count g prev cur
           = Some (of_int \<lfloor>- (cur - prev) * 1000000 * of_nat (unat (massNum g)) / ioniz g\<rfloor>)"
proof -
  let ?m = "of_nat (unat (massNum g)) :: real"
  from assms have
    c: "scaled g cur = Some (cur * 1000000 * ?m)" and
    p: "scaled g prev = Some (prev * 1000000 * ?m)" and
    d: "round_double (cur * 1000000 * ?m - prev * 1000000 * ?m)
          = Some (cur * 1000000 * ?m - prev * 1000000 * ?m)" and
    z: "ioniz g \<noteq> 0" and
    q: "round_double (- (cur * 1000000 * ?m - prev * 1000000 * ?m) / ioniz g)
          = Some (- (cur * 1000000 * ?m - prev * 1000000 * ?m) / ioniz g)"
    by (simp_all add: exact_ops_def Let_def scaled_def fl_mul_def)
  have e: "- (cur * 1000000 * ?m - prev * 1000000 * ?m) = - (cur - prev) * 1000000 * ?m"
    by (simp add: algebra_simps)
  have "electron_count g prev cur
          = Some (of_int \<lfloor>- (cur * 1000000 * ?m - prev * 1000000 * ?m) / ioniz g\<rfloor>)"
    unfolding electron_count_def c p
    using d z q by (simp add: fl_sub_def fl_neg_def fl_div_def fl_floor_def)
  then show ?thesis unfolding e .
qed

text \<open>
  Claim C7, as amended. For an energy vector of at least two elements \<open>numElec\<close> returns
  a vector of the same length whose first element is 0 and whose element \<open>i \<ge> 1\<close> is the
  floor of the double that the code computes: the two energies are scaled by \<open>1e6\<close> and
  by \<open>massNum\<close>, then subtracted, negated and divided by \<open>ioniz\<close>, every operation rounded
  to double (the element is not finite when \<open>ioniz\<close> is 0 or an operation overflows). When
  \<open>ioniz\<close> is not 0 and none of these operations rounds, the element is
  \<open>floor (- (en(i) - en(i-1)) * 1e6 * massNum / ioniz)\<close>.
\<close>

theorem numElec_values:
  assumes "2 \<le> length en"
  shows "\<exists>r. numElec g en = Inr r \<and> length r = length en \<and> r ! 0 = Some 0 \<and>
           (\<forall>i. 1 \<le> i \<and> i < length en \<longrightarrow>
              r ! i = electron_count g (en ! (i - 1)) (en ! i) \<and>
              (exact_ops g (en ! (i - 1)) (en ! i) \<longrightarrow>
                 r ! i = Some (of_int \<lfloor>- (en ! i - en ! (i - 1)) * 1000000
                                         * of_nat (unat (massNum g)) / ioniz g\<rfloor>)))"
proof -
  let ?s = "map (scaled g) en"
  let ?r = "Some 0 # map (\<lambda>d. fl_floor (fl_div (fl_neg d) (Some (ioniz g)))) (diff ?s)"
  have r: "numElec g en = Inr ?r"
    using assms by (rule numElec_Inr)
  have len: "length ?r = length en"
    using assms by (simp add: length_diff)
  have vals: "?r ! i = electron_count g (en ! (i - 1)) (en ! i)"
    if "1 \<le> i" "i < length en" for i
  proof -
    from that obtain j where j: "i = Suc j" by (cases i) auto
    with that have jl: "j < length ?s - 1" by simp
    have d: "diff ?s ! j = fl_sub (scaled g (en ! Suc j)) (scaled g (en ! j))"
      using jl that j by (simp add: nth_diff)
    have "?r ! i = fl_floor (fl_div (fl_neg (diff ?s ! j)) (Some (ioniz g)))"
      using jl by (simp add: j length_diff)
    then show ?thesis
      unfolding d j by (simp add: electron_count_def)
  qed
  have exact: "?r ! i = Some (of_int \<lfloor>- (en ! i - en ! (i - 1)) * 1000000
                                        * of_nat (unat (massNum g)) / ioniz g\<rfloor>)"
    if "1 \<le> i" "i < length en" "exact_ops g (en ! (i - 1)) (en ! i)" for i
    using vals [OF that(1,2)] electron_count_exact [OF that(3)] by simp
  have "?r ! 0 = Some 0" by simp
  with r len vals exact show ?thesis by blast
qed

lemma exact_ops_sample: "exact_ops sample_generator 3 1"
  by (simp add: exact_ops_def sample_generator_def round_double_eval)

theorem numElec_values_witness:
  "\<exists>r. numElec sample_generator [3, 1] = Inr r \<and> length r = 2 \<and> r ! 0 = Some 0 \<and>
       r ! 1 = electron_count sample_generator 3 1 \<and> r ! 1 = Some 1000000"
proof -
  have h: "2 \<le> length [3, 1 :: real]" by simp
  from numElec_values [OF h, of sample_generator] obtain r where
    r: "numElec sample_generator [3, 1] = Inr r" "length r = length [3, 1 :: real]"
       "r ! 0 = Some 0"
       "\<forall>i. 1 \<le> i \<and> i < length [3, 1 :: real] \<longrightarrow>
          r ! i = electron_count sample_generator ([3, 1] ! (i - 1)) ([3, 1] ! i) \<and>
          (exact_ops sample_generator ([3, 1] ! (i - 1)) ([3, 1] ! i) \<longrightarrow>
             r ! i = Some (of_int \<lfloor>- ([3, 1] ! i - [3, 1] ! (i - 1)) * 1000000
                            * of_nat (unat (massNum sample_generator)) / ioniz sample_generator\<rfloor>))"
    by blast
  have pre: "1 \<le> (1::nat) \<and> 1 < length [3, 1 :: real]" by simp
  have e: "[3, 1 :: real] ! (1 - 1) = 3" "[3, 1 :: real] ! 1 = 1" by simp_all
  note t = r(4) [rule_format, OF pre, unfolded e]
  from t have x1: "r ! 1 = electron_count sample_generator 3 1"
    by (rule conjunct1)
  have v: "(of_int \<lfloor>- (1 - 3) * 1000000 * of_nat (unat (massNum sample_generator))
                     / ioniz sample_generator\<rfloor> :: real) = 1000000"
    by (simp add: sample_generator_def)
  from t have "exact_ops sample_generator 3 1 \<longrightarrow>
      r ! 1 = Some (of_int \<lfloor>- (1 - 3) * 1000000 * of_nat (unat (massNum sample_generator))
                             / ioniz sample_generator\<rfloor>)"
    by (rule conjunct2)
  then have "r ! 1 = Some (of_int \<lfloor>- (1 - 3) * 1000000 * of_nat (unat (massNum sample_generator))
                             / ioniz sample_generator\<rfloor>)"
    using exact_ops_sample by (rule mp)
  then have x2: "r ! 1 = Some 1000000" unfolding v .
  from r(2) have l: "length r = 2" by simp
  from r(1) l r(3) x1 x2 show ?thesis by blast
qed

text \<open>
  Claim C7 as stated gives the element as the floor of the exact quotient. The doubles
  nearest to 0.3 and to 0.1 are \<open>5404319552844595 / 2\<^sup>5\<^sup>4\<close> and \<open>3602879701896397 / 2\<^sup>5\<^sup>5\<close>.
  With \<open>massNum = 1\<close> and \<open>ioniz = 1\<close> the code scales them to the doubles 300000 and
  100000 and returns 200000, where the floor of the exact quotient is 199999.
\<close>

theorem numElec_values_rounding:
  "round_double (5404319552844595 / 2 ^ 54) = Some (5404319552844595 / 2 ^ 54) \<and>
   round_double (3602879701896397 / 2 ^ 55) = Some (3602879701896397 / 2 ^ 55) \<and>
   numElec (sample_generator\<lparr>ioniz := 1\<rparr>)
       [5404319552844595 / 2 ^ 54, 3602879701896397 / 2 ^ 55]
     = Inr [Some 0, Some 200000] \<and>
   \<lfloor>- (3602879701896397 / 2 ^ 55 - 5404319552844595 / 2 ^ 54) * 1000000
       * of_nat (unat (massNum (sample_generator\<lparr>ioniz := 1\<rparr>)))
       / ioniz (sample_generator\<lparr>ioniz := 1\<rparr>) :: real\<rfloor> = 199999"
proof -
  have a: "round_double (5404319552844595 / 2 ^ 54) = Some (5404319552844595 / 2 ^ 54)"
    by (simp add: round_double_eval)
  have b: "round_double (3602879701896397 / 2 ^ 55) = Some (3602879701896397 / 2 ^ 55)"
    by (simp add: round_double_eval)
  have n: "numElec (sample_generator\<lparr>ioniz := 1\<rparr>)
             [5404319552844595 / 2 ^ 54, 3602879701896397 / 2 ^ 55]
           = Inr [Some 0, Some 200000]"
    by (simp add: numElec_Inr diff_def scaled_def fl_mul_def fl_sub_def fl_neg_def fl_div_def
        fl_floor_def sample_generator_def round_double_eval)
  have f: "\<lfloor>- (3602879701896397 / 2 ^ 55 - 5404319552844595 / 2 ^ 54) * 1000000
             * of_nat (unat (massNum (sample_generator\<lparr>ioniz := 1\<rparr>)))
             / ioniz (sample_generator\<lparr>ioniz := 1\<rparr>) :: real\<rfloor> = 199999"
    by (simp add: sample_generator_def)
  from a b n f show ?thesis by blast
qed

lemma those_length: "those xs = Some ys \<Longrightarrow> length ys = length xs"
  by (induction xs arbitrary: ys) (auto split: option.splits)

text \<open>
  Claim C10. On an empty or one-element vector \<open>numElec\<close> fails with the bounds error;
  on a vector of at least two elements it returns a vector, and so \<open>prepareTrack\<close>, which
  passes its energy vector to \<open>numElec\<close>, has no bounds error on a trajectory of at least
  two points.
\<close>

theorem numElec_bounds:
  "(length en < 2 \<longrightarrow> numElec g en = Inl IndexOutOfBounds) \<and>
   (2 \<le> length en \<longrightarrow> (\<exists>r. numElec g en = Inr r)) \<and>
   (2 \<le> length pos \<longrightarrow> prepareTrack g pos en \<noteq> Inl IndexOutOfBounds)"
proof (intro conjI impI)
  assume "length en < 2"
  then show "numElec g en = Inl IndexOutOfBounds"
    by (simp add: numElec_def)
next
  assume "2 \<le> length en"
  then show "\<exists>r. numElec g en = Inr r"
    by (simp add: numElec_Inr)
next
  assume pos: "2 \<le> length pos"
  show "prepareTrack g pos en \<noteq> Inl IndexOutOfBounds"
  proof (cases "length en = length pos")
    case False
    then show ?thesis by (simp add: prepareTrack_def)
  next
    case True
    with pos have en: "2 \<le> length en" by simp
    show ?thesis
    proof (cases "uncalibrate (unTiltAndRecenter pos (tilt g)) (vd g) (clock g) 0")
      case None
      then show ?thesis
        using True en by (simp add: prepareTrack_def numElec_Inr)
    next
      case (Some u)
      have "length u = length pos"
        using those_length [of _ u] Some by (simp add: uncalibrate_def unTiltAndRecenter_def)
      then show ?thesis
        using True en pos Some
        by (auto simp: prepareTrack_def numElec_Inr diffuseElectrons_def Let_def length_diff)
    qed
  qed
qed

theorem numElec_bounds_witness:
  "numElec sample_generator [3] = Inl IndexOutOfBounds \<and>
   (\<exists>r. numElec sample_generator [3, 1] = Inr r) \<and>
   prepareTrack sample_generator [(0, 0, 0), (0, 0, 1)] [3, 1] \<noteq> Inl IndexOutOfBounds"
  using numElec_bounds [of "[3]" sample_generator "[]"]
        numElec_bounds [of "[3, 1]" sample_generator "[(0, 0, 0), (0, 0, 1)]"]
  by simp


section \<open>Diffusion\<close>

lemma nth_concat_blocks:
  "k < length pts \<Longrightarrow> i < length tr \<Longrightarrow>
   concat (map (\<lambda>pt. map (f pt) tr) pts) ! (length tr * k + i) = f (pts ! k) (tr ! i)"
proof (induction pts arbitrary: k)
  case Nil
  then show ?case by simp
next
  case (Cons pt pts)
  show ?case
  proof (cases k)
    case 0
    with Cons.prems show ?thesis by (simp add: nth_append)
  next
    case (Suc j)
    with Cons.prems have j: "j < length pts" by simp
    have "length tr * Suc j + i = length tr + (length tr * j + i)" by simp
    then show ?thesis
      using Cons.IH [OF j Cons.prems(2)] Suc by (simp add: nth_append)
  qed
qed

lemma length_concat_blocks:
  "length (concat (map (\<lambda>pt. map (f pt) tr) pts)) = length pts * length tr"
  by (induction pts) simp_all

lemma length_diffPts: "length (diffPts s) = 8"
  by (simp add: diffPts_def Let_def)

lemma diffuseElectrons_Inr:
  "tr \<noteq> [] \<Longrightarrow>
   diffuseElectrons g tr =
     Inr (map center_row tr @
          concat (map (\<lambda>pt. map (satellite_row (diffAmpl 8) pt) tr) (diffPts (diffSigma g))))"
  by (simp add: diffuseElectrons_def Let_def length_diffPts)

lemma diffuseElectrons_satellite:
  assumes "i < length tr" "k < 8"
  shows "(map center_row tr @
          concat (map (\<lambda>pt. map (satellite_row a pt) tr) (diffPts s))) ! (length tr * (k + 1) + i)
         = satellite_row a (diffPts s ! k) (tr ! i)"
proof -
  have "length tr * (k + 1) + i = length (map center_row tr) + (length tr * k + i)"
    by simp
  then show ?thesis
    using assms nth_concat_blocks [of k "diffPts s" i tr "satellite_row a"]
    by (simp only: nth_append_length_plus length_diffPts)
qed

lemma row_n_satellite: "row_n (satellite_row a pt (x, y, z, n)) = n * a"
  by (cases pt) (simp add: satellite_row_def row_n_def split: option.splits)

lemma row_z_satellite: "row_z (satellite_row a pt (x, y, z, n)) = z"
  by (cases pt) (simp add: satellite_row_def row_z_def split: option.splits)

lemma diffuseElectrons_time_buckets:
  assumes "i < length tr" and "tr ! i = (x, y, z, A)"
  shows "\<exists>res. diffuseElectrons g tr = Inr res \<and>
           length res = 9 * length tr \<and>
           row_z (res ! i) = z \<and>
           (\<forall>k<8. row_z (res ! (length tr * (k + 1) + i)) = z)"
proof -
  let ?res = "map center_row tr @
              concat (map (\<lambda>pt. map (satellite_row (diffAmpl 8) pt) tr) (diffPts (diffSigma g)))"
  from assms(1) have ne: "tr \<noteq> []" by auto
  have res: "diffuseElectrons g tr = Inr ?res"
    using ne by (rule diffuseElectrons_Inr)
  have len: "length ?res = 9 * length tr"
    by (simp add: length_concat_blocks length_diffPts)
  have ctr: "row_z (?res ! i) = z"
    using assms by (simp add: nth_append center_row_def row_z_def)
  have satz: "row_z (?res ! (length tr * (k + 1) + i)) = z" if "k < 8" for k
    unfolding diffuseElectrons_satellite [OF assms(1) that] assms(2) by (rule row_z_satellite)
  from res len ctr satz show ?thesis by blast
qed

text \<open>
  Claim C2. For the input row \<open>i\<close>, with amplitude \<open>A\<close>, \<open>diffuseElectrons\<close> returns a
  matrix of nine times as many rows as the input; its row \<open>i\<close> is the input row with the
  amplitude \<open>0.4 * A\<close>; each of the eight rows \<open>numPts * (k + 1) + i\<close> is the satellite of
  offset \<open>k\<close>, at the same \<open>z\<close> with the amplitude \<open>(0.6 / 8) * A\<close>; the nine amplitudes
  sum to \<open>A\<close>.
\<close>

theorem diffuseElectrons_charge:
  assumes "i < length tr" and "tr ! i = (x, y, z, A)"
  shows "\<exists>res. diffuseElectrons g tr = Inr res \<and>
           length res = 9 * length tr \<and>
           res ! i = (Some x, Some y, z, (4 / 10) * A) \<and>
           (\<forall>k<8. res ! (length tr * (k + 1) + i)
                     = satellite_row ((6 / 10) / 8) (diffPts (diffSigma g) ! k) (tr ! i) \<and>
                   row_z (res ! (length tr * (k + 1) + i)) = z \<and>
                   row_n (res ! (length tr * (k + 1) + i)) = ((6 / 10) / 8) * A) \<and>
           row_n (res ! i) + (\<Sum>k<8. row_n (res ! (length tr * (k + 1) + i))) = A"
proof -
  let ?res = "map center_row tr @
              concat (map (\<lambda>pt. map (satellite_row (diffAmpl 8) pt) tr) (diffPts (diffSigma g)))"
  from assms(1) have ne: "tr \<noteq> []" by auto
  have a: "diffAmpl 8 = (6 / 10) / 8"
    by (simp add: diffAmpl_def centerAmpl_def)
  have res: "diffuseElectrons g tr = Inr ?res"
    using ne by (rule diffuseElectrons_Inr)
  have len: "length ?res = 9 * length tr"
    by (simp add: length_concat_blocks length_diffPts)
  have ctr: "?res ! i = (Some x, Some y, z, (4 / 10) * A)"
    using assms by (simp add: nth_append center_row_def centerAmpl_def)
  have sat: "?res ! (length tr * (k + 1) + i)
               = satellite_row ((6 / 10) / 8) (diffPts (diffSigma g) ! k) (tr ! i)"
    if "k < 8" for k
    using diffuseElectrons_satellite [OF assms(1) that, of "diffAmpl 8" "diffSigma g"]
    unfolding a .
  have satz: "row_z (?res ! (length tr * (k + 1) + i)) = z" if "k < 8" for k
    unfolding sat [OF that] assms(2) by (rule row_z_satellite)
  have satn: "row_n (?res ! (length tr * (k + 1) + i)) = ((6 / 10) / 8) * A" if "k < 8" for k
    unfolding sat [OF that] assms(2) by (simp add: row_n_satellite)
  have "(\<Sum>k<8. row_n (?res ! (length tr * (k + 1) + i))) = (\<Sum>k<(8::nat). ((6 / 10) / 8) * A)"
  proof (rule sum.cong [OF refl])
    fix k :: nat
    assume "k \<in> {..<8}"
    then have "k < 8" by simp
    then show "row_n (?res ! (length tr * (k + 1) + i)) = ((6 / 10) / 8) * A"
      by (rule satn)
  qed
  also have "\<dots> = (6 / 10) * A" by simp
  finally have "row_n (?res ! i) + (\<Sum>k<8. row_n (?res ! (length tr * (k + 1) + i))) = A"
    unfolding ctr by (simp add: row_n_def)
  with res len ctr sat satz satn show ?thesis by blast
qed

theorem diffuseElectrons_charge_witness:
  "\<exists>res. diffuseElectrons sample_generator [(1, 2, 4, 80), (5, 6, 9, 40)] = Inr res \<and>
     length res = 18 \<and>
     res ! 1 = (Some 5, Some 6, 9, 16) \<and>
     row_n (res ! 3) = 3 \<and> row_n (res ! 17) = 3 \<and>
     row_n (res ! 1) + (\<Sum>k<8. row_n (res ! (2 * (k + 1) + 1))) = 40"
proof -
  have h: "1 < length [(1, 2, 4, 80), (5, 6, 9, 40 :: real) :: row4]" by simp
  have e: "[(1, 2, 4, 80), (5, 6, 9, 40)] ! 1 = (5 :: real, 6 :: real, 9 :: real, 40 :: real)" by simp
  from diffuseElectrons_charge [OF h e, of sample_generator] obtain res where
    r: "diffuseElectrons sample_generator [(1, 2, 4, 80), (5, 6, 9, 40)] = Inr res"
       "length res = 9 * length [(1, 2, 4, 80), (5, 6, 9, 40 :: real) :: row4]"
       "res ! 1 = (Some 5, Some 6, 9, (4 / 10) * 40)"
       "\<forall>k<8. row_n (res ! (length [(1, 2, 4, 80), (5, 6, 9, 40 :: real) :: row4] * (k + 1) + 1))
                 = ((6 / 10) / 8) * 40"
       "row_n (res ! 1)
          + (\<Sum>k<8. row_n (res ! (length [(1, 2, 4, 80), (5, 6, 9, 40 :: real) :: row4] * (k + 1) + 1)))
        = 40"
    by blast
  from r(4) [rule_format, of 0] have r3: "row_n (res ! 3) = 3"
    by (simp add: eval_nat_numeral)
  from r(4) [rule_format, of 7] have r17: "row_n (res ! 17) = 3"
    by (simp add: eval_nat_numeral)
  have l: "length [(1, 2, 4, 80), (5, 6, 9, 40 :: real) :: row4] = 2" by simp
  from r(2) have r18: "length res = 18" by simp
  from r(3) have r1: "res ! 1 = (Some 5, Some 6, 9, 16)" by simp
  note rs = r(5) [unfolded l]
  from r(1) r18 r1 r3 r17 rs show ?thesis by blast
qed


section \<open>The time bucket of a drifting point\<close>

lemma unTiltAndRecenter_row_zero: "unTiltAndRecenter_row (x, y, z) 0 = (x, y, z)"
  by (simp add: unTiltAndRecenter_row_def)

lemma uncalibrate_row_drift:
  "uncalibrate_row (x, y, z) (0, 0, - 1) 1000000 0 = Some (x, y, z * 100)"
  by (simp add: uncalibrate_row_def fdiv_def)

text \<open>
  Claim C8. With zero tilt, the drift velocity (0, 0, -1) cm/\<mu>s and the clock 1 MHz
  (\<open>10\<^sup>6\<close> Hz), un-tilting and uncalibrating (offset 0) a trajectory whose second point is
  at z = 0.5 m gives that point the time bucket 50, and the rows that \<open>prepareTrack\<close>
  derives from it (row 1 and its eight satellites) carry the time bucket 50.
\<close>

theorem prepareTrack_time_bucket:
  "uncalibrate (unTiltAndRecenter [(x0, y0, 0), (x1, y1, 1 / 2)] 0) (0, 0, - 1) 1000000 0
     = Some [(x0, y0, 0), (x1, y1, 50)] \<and>
   (\<exists>res. prepareTrack (g\<lparr>vd := (0, 0, - 1), tilt := 0, clock := 1000000\<rparr>)
             [(x0, y0, 0), (x1, y1, 1 / 2)] [e0, e1] = Inr res \<and>
          length res = 18 \<and> row_z (res ! 1) = 50 \<and> row_z (res ! 3) = 50 \<and> row_z (res ! 17) = 50)"
proof -
  let ?g = "g\<lparr>vd := (0, 0, - 1), tilt := 0, clock := 1000000\<rparr>"
  have u: "uncalibrate (unTiltAndRecenter [(x0, y0, 0), (x1, y1, 1 / 2)] 0) (0, 0, - 1) 1000000 0
             = Some [(x0, y0, 0), (x1, y1, 50)]"
    by (simp add: uncalibrate_def unTiltAndRecenter_def unTiltAndRecenter_row_zero
        uncalibrate_row_drift)
  have en: "2 \<le> length [e0, e1]" by simp
  from numElec_Inr [OF en, of ?g] obtain n0 n1 where n: "numElec ?g [e0, e1] = Inr [n0, n1]"
    by (simp add: diff_def)
  let ?tr = "[(x0, y0, 0, count_value n0), (x1, y1, 50, count_value n1)] :: row4 list"
  have p: "prepareTrack ?g [(x0, y0, 0), (x1, y1, 1 / 2)] [e0, e1] = diffuseElectrons ?g ?tr"
    using u n by (simp add: prepareTrack_def)
  have i: "1 < length ?tr" by simp
  have e: "?tr ! 1 = (x1, y1, 50, count_value n1)" by simp
  from diffuseElectrons_time_buckets [OF i e, of ?g] obtain res where
    r: "diffuseElectrons ?g ?tr = Inr res" "length res = 9 * length ?tr"
       "row_z (res ! 1) = 50" "\<forall>k<8. row_z (res ! (length ?tr * (k + 1) + 1)) = 50"
    by blast
  from r(2) have r18: "length res = 18" by simp
  from r(4) [rule_format, of 0] have r3: "row_z (res ! 3) = 50"
    by (simp add: eval_nat_numeral)
  from r(4) [rule_format, of 7] have r17: "row_z (res ! 17) = 50"
    by (simp add: eval_nat_numeral)
  from p r(1) r18 r(3) r3 r17 u show ?thesis by simp
qed


section \<open>Pulse causality\<close>

lemma length_elecPulse_loop: "length (elecPulse_loop a s off i res) = length res"
proof (induction a s off i res rule: elecPulse_loop.induct)
  case (1 a s off i res)
  show ?case
  proof (cases "i < length res")
    case True
    with "1.IH" show ?thesis by (simp add: elecPulse_loop.simps [of a s off i res])
  next
    case False
    then show ?thesis by (simp add: elecPulse_loop.simps [of a s off i res])
  qed
qed

lemma elecPulse_loop_before: "j < i \<Longrightarrow> elecPulse_loop a s off i res ! j = res ! j"
proof (induction a s off i res rule: elecPulse_loop.induct)
  case (1 a s off i res)
  show ?case
  proof (cases "i < length res")
    case True
    from "1.prems" have "j < Suc i" "j \<noteq> i" by simp_all
    with "1.IH" [OF True] True show ?thesis
      by (simp add: elecPulse_loop.simps [of a s off i res])
  next
    case False
    then show ?thesis by (simp add: elecPulse_loop.simps [of a s off i res])
  qed
qed

lemma elecPulse_loop_from:
  "i \<le> j \<Longrightarrow> j < length res \<Longrightarrow> elecPulse_loop a s off i res ! j = pulse_sample a s off j"
proof (induction a s off i res rule: elecPulse_loop.induct)
  case (1 a s off i res)
  from "1.prems" have il: "i < length res" by simp
  have step: "elecPulse_loop a s off i res
                = elecPulse_loop a s off (Suc i) (res[i := pulse_sample a s off i])"
    using il by (simp add: elecPulse_loop.simps [of a s off i res])
  show ?case
  proof (cases "i = j")
    case True
    have "elecPulse_loop a s off (Suc i) (res[i := pulse_sample a s off i]) ! j
            = (res[i := pulse_sample a s off i]) ! j"
      using True by (intro elecPulse_loop_before) simp
    with True il show ?thesis
      unfolding step by simp
  next
    case False
    with "1.prems" have "Suc i \<le> j" by simp
    with "1.IH" [OF il] "1.prems" show ?thesis
      unfolding step by simp
  qed
qed

text \<open>
  Claim C6, as amended. \<open>elecPulse\<close> returns 512 samples for every amplitude, shape
  time, clock frequency and offset, whatever the platform makes of an undefined
  conversion; when the ceiling of the offset is below \<open>2\<^sup>6\<^sup>4\<close>, every sample at an index
  below that ceiling is zero.
\<close>

theorem elecPulse_causal:
  "length (elecPulse ub amplitude shp clk offset) = 512 \<and>
   (\<lceil>offset\<rceil> < 2 ^ 64 \<longrightarrow>
      (\<forall>i<512. int i < \<lceil>offset\<rceil> \<longrightarrow> elecPulse ub amplitude shp clk offset ! i = 0))"
proof (intro conjI impI allI)
  show "length (elecPulse ub amplitude shp clk offset) = 512"
    by (simp add: elecPulse_def Let_def length_elecPulse_loop)
next
  fix i :: nat
  assume c: "\<lceil>offset\<rceil> < 2 ^ 64" and l: "i < 512" and i: "int i < \<lceil>offset\<rceil>"
  from i have "0 \<le> \<lceil>offset\<rceil>" by linarith
  with c have f: "to_uword ub \<lceil>offset\<rceil> = nat \<lceil>offset\<rceil>"
    by (simp add: to_uword_def)
  from i have "i < nat \<lceil>offset\<rceil>" by linarith
  then have "elecPulse_loop amplitude (shp * clk) offset (nat \<lceil>offset\<rceil>) (replicate 512 0) ! i
               = replicate 512 0 ! i"
    by (rule elecPulse_loop_before)
  with l show "elecPulse ub amplitude shp clk offset ! i = 0"
    by (simp add: elecPulse_def Let_def f)
qed

theorem elecPulse_causal_witness:
  "length (elecPulse (\<lambda>c. 0) 1 1 1 (5 / 2)) = 512 \<and>
   elecPulse (\<lambda>c. 0) 1 1 1 (5 / 2) ! 2 = 0"
proof -
  have c: "\<lceil>5 / 2 :: real\<rceil> = 3" by linarith
  from elecPulse_causal [of "\<lambda>c. 0" 1 1 1 "5 / 2"] show ?thesis
    unfolding c by simp
qed

text \<open>
  Claim C6 as stated covers every offset. For an offset of \<open>2\<^sup>6\<^sup>4\<close> the conversion of its
  ceiling to \<^verbatim>\<open>arma::uword\<close> is undefined; where the platform gives 0 (the x86-64
  conversion does), the loop starts at index 0 and the sample there is not zero.
\<close>

theorem elecPulse_causal_huge_offset:
  "int 0 < \<lceil>2 ^ 64 :: real\<rceil> \<and> elecPulse (\<lambda>c. 0) 1 1 1 (2 ^ 64) ! 0 \<noteq> 0"
proof -
  have c: "\<lceil>2 ^ 64 :: real\<rceil> = 2 ^ 64"
    by (metis ceiling_of_int of_int_numeral of_int_power)
  have "elecPulse (\<lambda>c. 0) 1 1 1 (2 ^ 64) ! 0 = pulse_sample 1 1 (2 ^ 64) 0"
    unfolding elecPulse_def Let_def c to_uword_def
    by (simp add: elecPulse_loop_from)
  moreover have "pulse_sample 1 1 (2 ^ 64) 0 \<noteq> 0"
    by (simp add: pulse_sample_def approxSin_def)
  ultimately show ?thesis unfolding c by simp
qed


section \<open>The loop of makeEvent\<close>

lemma length_elecPulse: "length (elecPulse ub a shp clk off) = 512"
  by (simp add: elecPulse_def Let_def length_elecPulse_loop)

lemma map_of_event_insert: "map_of (event_insert k v m) = (map_of m)(k \<mapsto> v)"
  by (induction m) (auto simp: fun_upd_twist)

lemma event_ok_map_of: "event_ok evt \<Longrightarrow> map_of evt k = Some sig \<Longrightarrow> length sig = 512"
  by (auto simp: event_ok_def dest: map_of_SomeD)

lemma set_event_insert: "set (event_insert k v m) \<subseteq> insert (k, v) (set m)"
  by (induction m) (auto split: if_splits)

lemma event_ok_insert: "event_ok evt \<Longrightarrow> length v = 512 \<Longrightarrow> event_ok (event_insert k v evt)"
  using set_event_insert [of k v evt] by (auto simp: event_ok_def)

lemma makeEvent_step_sentinel: "row_pad g r = 20000 \<Longrightarrow> makeEvent_step g cf r evt = evt"
  by (simp add: makeEvent_step_def row_pad_def)

lemma map_of_makeEvent_step:
  assumes "event_ok evt" and "row_pad g r \<noteq> 20000"
  shows "map_of (makeEvent_step g cf r evt) =
           (map_of evt)(row_pad g r \<mapsto>
              (if row_z r > 511 then pad_signal evt (row_pad g r)
               else vec_add (pad_signal evt (row_pad g r))
                      (elecPulse (uword_of_unrepresentable g) (cf * row_n r) (shape g) (clock g) (row_z r))))"
proof -
  let ?p = "row_pad g r"
  have found: "(let found = (case map_of evt ?p of None \<Rightarrow> [] | Some sig \<Rightarrow> sig)
                in if found = [] then replicate 512 0 else found) = pad_signal evt ?p"
  proof (cases "map_of evt ?p")
    case None
    then show ?thesis by (simp add: pad_signal_def)
  next
    case (Some sig)
    with assms(1) have "length sig = 512" by (rule event_ok_map_of)
    then have "sig \<noteq> []" by auto
    with Some show ?thesis by (simp add: pad_signal_def)
  qed
  show ?thesis
    using assms(2) found
    by (simp add: makeEvent_step_def row_pad_def [symmetric] Let_def map_of_event_insert)
qed

lemma length_vec_add: "length (vec_add a b) = min (length a) (length b)"
  by (simp add: vec_add_def)

lemma length_pad_signal: "event_ok evt \<Longrightarrow> length (pad_signal evt p) = 512"
  by (auto simp: pad_signal_def dest: event_ok_map_of split: option.splits)

lemma event_ok_makeEvent_step:
  assumes "event_ok evt"
  shows "event_ok (makeEvent_step g cf r evt)"
proof (cases "row_pad g r = 20000")
  case True
  with assms show ?thesis by (simp add: makeEvent_step_sentinel)
next
  case False
  let ?p = "row_pad g r"
  have found: "(let found = (case map_of evt ?p of None \<Rightarrow> [] | Some sig \<Rightarrow> sig)
                in if found = [] then replicate 512 0 else found) = pad_signal evt ?p"
  proof (cases "map_of evt ?p")
    case None
    then show ?thesis by (simp add: pad_signal_def)
  next
    case (Some sig)
    with assms(1) have "length sig = 512" by (rule event_ok_map_of)
    then have "sig \<noteq> []" by auto
    with Some show ?thesis by (simp add: pad_signal_def)
  qed
  have l: "length (pad_signal evt ?p) = 512"
    using assms by (rule length_pad_signal)
  have ok1: "event_ok (event_insert ?p (pad_signal evt ?p) evt)"
    using assms l by (rule event_ok_insert)
  have ok2: "event_ok (event_insert ?p (vec_add (pad_signal evt ?p) pulse)
                         (event_insert ?p (pad_signal evt ?p) evt))"
    if "length pulse = 512" for pulse
    using ok1 by (rule event_ok_insert) (simp add: length_vec_add l that)
  show ?thesis
    using False found ok1 ok2 [OF length_elecPulse]
    by (simp add: makeEvent_step_def row_pad_def [symmetric] Let_def)
qed

lemma pad_signal_makeEvent_step:
  assumes "event_ok evt"
  shows "pad_signal (makeEvent_step g cf r evt) p =
           (if row_pad g r = p \<and> contributes g r
            then vec_add (pad_signal evt p)
                   (elecPulse (uword_of_unrepresentable g) (cf * row_n r) (shape g) (clock g) (row_z r))
            else pad_signal evt p)"
proof (cases "row_pad g r = 20000")
  case True
  then show ?thesis by (simp add: makeEvent_step_sentinel contributes_def)
next
  case False
  show ?thesis
    unfolding pad_signal_def [of "makeEvent_step g cf r evt"] map_of_makeEvent_step [OF assms False]
    using False by (auto simp: contributes_def pad_signal_def)
qed

lemma dom_makeEvent_step:
  assumes "event_ok evt"
  shows "dom (map_of (makeEvent_step g cf r evt)) =
           dom (map_of evt) \<union> (if row_pad g r \<noteq> 20000 then {row_pad g r} else {})"
proof (cases "row_pad g r = 20000")
  case True
  then show ?thesis by (simp add: makeEvent_step_sentinel)
next
  case False
  then show ?thesis
    unfolding map_of_makeEvent_step [OF assms False] by simp
qed

lemma makeEvent_loop_foldl:
  "makeEvent_loop g cf uncal i evt =
     foldl (\<lambda>e r. makeEvent_step g cf r e) evt (drop i (butlast uncal))"
proof (induction g cf uncal i evt rule: makeEvent_loop.induct)
  case (1 g cf uncal i evt)
  show ?case
  proof (cases "i < length uncal - 1")
    case True
    then have d: "drop i (butlast uncal) = uncal ! i # drop (Suc i) (butlast uncal)"
      by (simp add: Cons_nth_drop_Suc [symmetric] nth_butlast)
    show ?thesis
      using True "1.IH" [OF True]
      by (simp add: makeEvent_loop.simps [of g cf uncal i evt] d)
  next
    case False
    then show ?thesis
      by (simp add: makeEvent_loop.simps [of g cf uncal i evt])
  qed
qed

lemma event_ok_foldl:
  "event_ok evt \<Longrightarrow> event_ok (foldl (\<lambda>e r. makeEvent_step g cf r e) evt rows)"
  by (induction rows arbitrary: evt) (simp_all add: event_ok_makeEvent_step)

lemma pad_signal_foldl_filter:
  "event_ok e1 \<Longrightarrow> event_ok e2 \<Longrightarrow> pad_signal e1 p = pad_signal e2 p \<Longrightarrow>
   pad_signal (foldl (\<lambda>e r. makeEvent_step g cf r e) e1 rows) p =
   pad_signal (foldl (\<lambda>e r. makeEvent_step g cf r e) e2 (filter (contributes g) rows)) p"
proof (induction rows arbitrary: e1 e2)
  case Nil
  then show ?case by simp
next
  case (Cons r rows)
  show ?case
  proof (cases "contributes g r")
    case True
    have "pad_signal (makeEvent_step g cf r e1) p = pad_signal (makeEvent_step g cf r e2) p"
      using Cons.prems by (simp add: pad_signal_makeEvent_step)
    with Cons.prems True show ?thesis
      by (simp add: Cons.IH event_ok_makeEvent_step)
  next
    case False
    have "pad_signal (makeEvent_step g cf r e1) p = pad_signal e2 p"
      using Cons.prems False by (simp add: pad_signal_makeEvent_step)
    from Cons.IH [OF event_ok_makeEvent_step [OF Cons.prems(1)] Cons.prems(2) this] False
    show ?thesis by simp
  qed
qed

lemma pad_signal_foldl_untouched:
  "event_ok evt \<Longrightarrow> (\<forall>r \<in> set rows. row_pad g r = p \<longrightarrow> \<not> contributes g r) \<Longrightarrow>
   pad_signal (foldl (\<lambda>e r. makeEvent_step g cf r e) evt rows) p = pad_signal evt p"
proof (induction rows arbitrary: evt)
  case Nil
  then show ?case by simp
next
  case (Cons r rows)
  have "pad_signal (makeEvent_step g cf r evt) p = pad_signal evt p"
    using Cons.prems by (auto simp: pad_signal_makeEvent_step)
  with Cons.prems show ?case
    by (simp add: Cons.IH event_ok_makeEvent_step)
qed

lemma dom_foldl_makeEvent_step:
  "event_ok evt \<Longrightarrow>
   dom (map_of (foldl (\<lambda>e r. makeEvent_step g cf r e) evt rows)) =
     dom (map_of evt) \<union> (row_pad g ` set rows - {20000})"
proof (induction rows arbitrary: evt)
  case Nil
  then show ?case by simp
next
  case (Cons r rows)
  from Cons.prems have ok: "event_ok (makeEvent_step g cf r evt)"
    by (rule event_ok_makeEvent_step)
  show ?case
    using Cons.IH [OF ok] dom_makeEvent_step [OF Cons.prems, of g cf r]
    by (cases "row_pad g r = 20000") auto
qed

lemma event_ok_Nil: "event_ok []"
  by (simp add: event_ok_def)

lemma prepareTrack_length:
  assumes "prepareTrack g pos en = Inr uncal"
  shows "length uncal = 9 * length pos \<and> 2 \<le> length pos"
proof -
  from assms have eq: "length en = length pos"
    by (auto simp: prepareTrack_def split: if_splits)
  from assms eq obtain ne where ne: "numElec g en = Inr ne"
    by (cases "numElec g en") (auto simp: prepareTrack_def)
  then have en2: "2 \<le> length en" and nel: "length ne = length en"
    by (auto simp: numElec_def Let_def length_diff split: if_splits)
  from assms eq ne obtain u where
    u: "uncalibrate (unTiltAndRecenter pos (tilt g)) (vd g) (clock g) 0 = Some u"
    by (cases "uncalibrate (unTiltAndRecenter pos (tilt g)) (vd g) (clock g) 0")
       (auto simp: prepareTrack_def)
  have ul: "length u = length pos"
    using those_length [of _ u] u by (simp add: uncalibrate_def unTiltAndRecenter_def)
  let ?tr = "map (\<lambda>((x, y, z), n). (x, y, z, count_value n)) (zip u ne)"
  have d: "diffuseElectrons g ?tr = Inr uncal"
    using assms eq ne u by (simp add: prepareTrack_def)
  have trl: "length ?tr = length pos" using ul nel eq by simp
  with en2 eq have "?tr \<noteq> []" by auto
  from diffuseElectrons_Inr [OF this, of g] d have
    "uncal = map center_row ?tr @
       concat (map (\<lambda>pt. map (satellite_row (diffAmpl 8) pt) ?tr) (diffPts (diffSigma g)))"
    by simp
  then have "length uncal = 9 * length ?tr"
    by (simp add: length_concat_blocks length_diffPts)
  with trl en2 eq show ?thesis by simp
qed


lemma makeEvent_foldl:
  assumes "prepareTrack g pos en = Inr uncal"
  shows "makeEvent g pos en =
           Inr (foldl (\<lambda>e r. makeEvent_step g (conversionFactor g) r e) [] (butlast uncal))"
proof -
  from prepareTrack_length [OF assms] have "uncal \<noteq> []" by auto
  with assms show ?thesis
    by (simp add: makeEvent_def makeEvent_loop_foldl)
qed

text \<open>
  A track of two points at the time bucket 600: the first over pad 1, the second
  outside the pad plane.
\<close>

lemma prepareTrack_sample:
  "prepareTrack sample_generator [(- 1, 0, 6), (200, 0, 6)] [3, 1] =
     Inr [(Some (- 1), Some 0, 600, 0), (Some 200, Some 0, 600, 400000),
          (Some (- 1), Some 0, 600, 0), (Some 200, Some 0, 600, 75000),
          (Some (- 1), Some 0, 600, 0), (Some 200, Some 0, 600, 75000),
          (Some (- 1), Some 0, 600, 0), (Some 200, Some 0, 600, 75000),
          (Some (- 1), Some 0, 600, 0), (Some 200, Some 0, 600, 75000),
          (Some (- 1), Some 0, 600, 0), (Some 200, Some 0, 600, 75000),
          (Some (- 1), Some 0, 600, 0), (Some 200, Some 0, 600, 75000),
          (Some (- 1), Some 0, 600, 0), (Some 200, Some 0, 600, 75000),
          (Some (- 1), Some 0, 600, 0), (Some 200, Some 0, 600, 75000)]"
proof -
  have u: "uncalibrate (unTiltAndRecenter [(- 1, 0, 6), (200, 0, 6)] 0) (0, 0, - 1) 1000000 0
             = Some [(- 1, 0, 600), (200, 0, 600)]"
    by (simp add: uncalibrate_def unTiltAndRecenter_def unTiltAndRecenter_row_zero
        uncalibrate_row_drift)
  have n: "numElec sample_generator [3, 1] = Inr [Some 0, Some 1000000]"
    by (simp add: numElec_Inr diff_def scaled_def fl_mul_def fl_sub_def fl_neg_def fl_div_def
        fl_floor_def sample_generator_def round_double_eval)
  have d: "diffuseElectrons sample_generator [(- 1, 0, 600, 0), (200, 0, 600, 1000000)] =
             Inr (map center_row [(- 1, 0, 600, 0), (200, 0, 600, 1000000)] @
                  concat (map (\<lambda>pt. map (satellite_row (diffAmpl 8) pt)
                                       [(- 1, 0, 600, 0), (200, 0, 600, 1000000)])
                              (diffPts 0)))"
    using diffuseElectrons_Inr [of "[(- 1, 0, 600, 0), (200, 0, 600, 1000000)]" sample_generator]
    by (simp add: sample_generator_def)
  have p: "prepareTrack sample_generator [(- 1, 0, 6), (200, 0, 6)] [3, 1] =
             diffuseElectrons sample_generator [(- 1, 0, 600, 0), (200, 0, 600, 1000000)]"
    using u n by (simp add: prepareTrack_def sample_generator_def count_value_def)
  show ?thesis
    unfolding p d
    by (simp add: center_row_def satellite_row_def diffPts_def diffAmpl_def centerAmpl_def
        fsqrt_def)
qed


lemma row_pad_sample:
  "row_pad sample_generator (Some (- 1), Some 0, z, n) = 1"
  "row_pad sample_generator (Some 200, Some 0, z, n) = 20000"
  by (simp_all add: row_pad_def row_x_def row_y_def sample_generator_def two_pads_def)

section \<open>Points that makeEvent skips\<close>

text \<open>
  Claim C4. \<open>makeEvent\<close> raises nothing on the matrix of \<open>prepareTrack\<close> and runs the
  loop body on every row but the last, in order. The body leaves the event as it is for
  a row whose pad is the sentinel 20000, and leaves every pad's signal as it is for a
  row whose time bucket exceeds 511; so the signals of the returned event are those of
  the rows that have a pad and a time bucket of at most 511.
\<close>

theorem makeEvent_skips:
  assumes "prepareTrack g pos en = Inr uncal"
  shows "makeEvent g pos en =
           Inr (foldl (\<lambda>e r. makeEvent_step g (conversionFactor g) r e) [] (butlast uncal)) \<and>
         (\<forall>rows. makeEvent_loop g cf rows 0 []
                   = foldl (\<lambda>e r. makeEvent_step g cf r e) [] (butlast rows)) \<and>
         (\<forall>r e. row_pad g r = 20000 \<longrightarrow> makeEvent_step g cf r e = e) \<and>
         (\<forall>r e p. event_ok e \<and> row_z r > 511 \<longrightarrow>
            pad_signal (makeEvent_step g cf r e) p = pad_signal e p) \<and>
         (\<forall>p. pad_signal (foldl (\<lambda>e r. makeEvent_step g (conversionFactor g) r e) []
                            (butlast uncal)) p =
              pad_signal (foldl (\<lambda>e r. makeEvent_step g (conversionFactor g) r e) []
                            (filter (contributes g) (butlast uncal))) p)"
proof (intro conjI allI impI)
  show "makeEvent g pos en =
          Inr (foldl (\<lambda>e r. makeEvent_step g (conversionFactor g) r e) [] (butlast uncal))"
    using assms by (rule makeEvent_foldl)
next
  fix rows
  show "makeEvent_loop g cf rows 0 [] = foldl (\<lambda>e r. makeEvent_step g cf r e) [] (butlast rows)"
    by (simp add: makeEvent_loop_foldl)
next
  fix r e
  assume "row_pad g r = 20000"
  then show "makeEvent_step g cf r e = e" by (rule makeEvent_step_sentinel)
next
  fix r e p
  assume "event_ok e \<and> row_z r > 511"
  then show "pad_signal (makeEvent_step g cf r e) p = pad_signal e p"
    by (simp add: pad_signal_makeEvent_step contributes_def)
next
  fix p
  show "pad_signal (foldl (\<lambda>e r. makeEvent_step g (conversionFactor g) r e) []
                      (butlast uncal)) p =
        pad_signal (foldl (\<lambda>e r. makeEvent_step g (conversionFactor g) r e) []
                      (filter (contributes g) (butlast uncal))) p"
    by (rule pad_signal_foldl_filter) (simp_all add: event_ok_Nil)
qed

theorem makeEvent_skips_witness:
  "\<exists>evt. makeEvent sample_generator [(- 1, 0, 6), (200, 0, 6)] [3, 1] = Inr evt \<and>
         (\<forall>p. pad_signal evt p = replicate 512 0) \<and>
         makeEvent_step sample_generator 1 (Some 200, Some 0, 600, 75000) [] = [] \<and>
         pad_signal (makeEvent_step sample_generator 1 (Some (- 1), Some 0, 600, 0) []) 1
           = replicate 512 0"
proof -
  let ?rows = "[(Some (- 1), Some 0, 600, 0), (Some 200, Some 0, 600, 400000),
          (Some (- 1), Some 0, 600, 0), (Some 200, Some 0, 600, 75000),
          (Some (- 1), Some 0, 600, 0), (Some 200, Some 0, 600, 75000),
          (Some (- 1), Some 0, 600, 0), (Some 200, Some 0, 600, 75000),
          (Some (- 1), Some 0, 600, 0), (Some 200, Some 0, 600, 75000),
          (Some (- 1), Some 0, 600, 0), (Some 200, Some 0, 600, 75000),
          (Some (- 1), Some 0, 600, 0), (Some 200, Some 0, 600, 75000),
          (Some (- 1), Some 0, 600, 0), (Some 200, Some 0, 600, 75000),
          (Some (- 1), Some 0, 600, 0), (Some 200, Some 0, 600, 75000)] :: drow list"
  let ?step = "\<lambda>e r. makeEvent_step sample_generator (conversionFactor sample_generator) r e"
  note t = makeEvent_skips [OF prepareTrack_sample, of 1]
  have f: "filter (contributes sample_generator) (butlast ?rows) = []"
    by (simp add: contributes_def row_pad_sample row_z_def)
  from t have m: "makeEvent sample_generator [(- 1, 0, 6), (200, 0, 6)] [3, 1]
                    = Inr (foldl ?step [] (butlast ?rows))"
    by blast
  from t have "\<forall>p. pad_signal (foldl ?step [] (butlast ?rows)) p
                 = pad_signal (foldl ?step [] (filter (contributes sample_generator) (butlast ?rows))) p"
    by blast
  then have z: "\<forall>p. pad_signal (foldl ?step [] (butlast ?rows)) p = replicate 512 0"
    unfolding f by (simp add: pad_signal_def)
  from t have "row_pad sample_generator (Some 200, Some 0, 600, 75000) = 20000 \<longrightarrow>
                 makeEvent_step sample_generator 1 (Some 200, Some 0, 600, 75000) [] = []"
    by blast
  then have s: "makeEvent_step sample_generator 1 (Some 200, Some 0, 600, 75000) [] = []"
    by (simp add: row_pad_sample)
  from t have "event_ok [] \<and> row_z (Some (- 1), Some 0, 600, 0) > 511 \<longrightarrow>
                 pad_signal (makeEvent_step sample_generator 1 (Some (- 1), Some 0, 600, 0) []) 1
                   = pad_signal [] 1"
    by blast
  then have o: "pad_signal (makeEvent_step sample_generator 1 (Some (- 1), Some 0, 600, 0) []) 1
                  = replicate 512 0"
    by (simp add: event_ok_Nil row_z_def pad_signal_def)
  from m z s o show ?thesis by blast
qed

section \<open>A pad with an all-zero signal\<close>

text \<open>
  Claim C9. A row with a pad allocates the 512 zeros of a pad that is no key yet, also
  when its time bucket exceeds 511. When at least one of the rows that \<open>makeEvent\<close>
  visits lies on the pad \<open>p\<close> and all of those on \<open>p\<close> have a time bucket above 511, the
  returned event has the key \<open>p\<close> with an all-zero signal.
\<close>

theorem makeEvent_zero_signal:
  assumes "prepareTrack g pos en = Inr uncal"
    and "r \<in> set (butlast uncal)" and "row_pad g r = p" and "p \<noteq> 20000"
    and "\<forall>r' \<in> set (butlast uncal). row_pad g r' = p \<longrightarrow> row_z r' > 511"
  shows "(\<forall>e. event_ok e \<and> map_of e p = None \<and> row_z r > 511 \<longrightarrow>
            map_of (makeEvent_step g cf r e) p = Some (replicate 512 0)) \<and>
         (\<exists>evt. makeEvent g pos en = Inr evt \<and> map_of evt p = Some (replicate 512 0))"
proof (intro conjI allI impI)
  fix e
  assume "event_ok e \<and> map_of e p = None \<and> row_z r > 511"
  then show "map_of (makeEvent_step g cf r e) p = Some (replicate 512 0)"
    using assms(3,4) by (simp add: map_of_makeEvent_step pad_signal_def)
next
  let ?evt = "foldl (\<lambda>e r. makeEvent_step g (conversionFactor g) r e) [] (butlast uncal)"
  have m: "makeEvent g pos en = Inr ?evt"
    using assms(1) by (rule makeEvent_foldl)
  have "dom (map_of ?evt) = row_pad g ` set (butlast uncal) - {20000}"
    using dom_foldl_makeEvent_step [OF event_ok_Nil, of g "conversionFactor g" "butlast uncal"]
    by simp
  with assms(2,3,4) have "p \<in> dom (map_of ?evt)" by auto
  then obtain sig where sig: "map_of ?evt p = Some sig" by auto
  have "pad_signal ?evt p = pad_signal [] p"
    using assms(5) by (intro pad_signal_foldl_untouched) (auto simp: event_ok_Nil contributes_def)
  with sig have "sig = replicate 512 0" by (simp add: pad_signal_def)
  with m sig show "\<exists>evt. makeEvent g pos en = Inr evt \<and> map_of evt p = Some (replicate 512 0)"
    by simp
qed

theorem makeEvent_zero_signal_witness:
  "map_of (makeEvent_step sample_generator 1 (Some (- 1), Some 0, 600, 0) []) 1
     = Some (replicate 512 0) \<and>
   (\<exists>evt. makeEvent sample_generator [(- 1, 0, 6), (200, 0, 6)] [3, 1] = Inr evt \<and>
          map_of evt 1 = Some (replicate 512 0))"
proof -
  let ?rows = "[(Some (- 1), Some 0, 600, 0), (Some 200, Some 0, 600, 400000),
          (Some (- 1), Some 0, 600, 0), (Some 200, Some 0, 600, 75000),
          (Some (- 1), Some 0, 600, 0), (Some 200, Some 0, 600, 75000),
          (Some (- 1), Some 0, 600, 0), (Some 200, Some 0, 600, 75000),
          (Some (- 1), Some 0, 600, 0), (Some 200, Some 0, 600, 75000),
          (Some (- 1), Some 0, 600, 0), (Some 200, Some 0, 600, 75000),
          (Some (- 1), Some 0, 600, 0), (Some 200, Some 0, 600, 75000),
          (Some (- 1), Some 0, 600, 0), (Some 200, Some 0, 600, 75000),
          (Some (- 1), Some 0, 600, 0), (Some 200, Some 0, 600, 75000)] :: drow list"
  have r: "(Some (- 1), Some 0, 600, 0) \<in> set (butlast ?rows)" by simp
  have p: "row_pad sample_generator (Some (- 1), Some 0, 600, 0) = 1"
    by (rule row_pad_sample)
  have n: "(1 :: pad_t) \<noteq> 20000" by simp
  have a: "\<forall>r' \<in> set (butlast ?rows). row_pad sample_generator r' = 1 \<longrightarrow> row_z r' > 511"
    by (simp add: row_z_def)
  note t = makeEvent_zero_signal [OF prepareTrack_sample r p n a, of 1]
  from t have "event_ok [] \<and> map_of ([] :: event) 1 = None \<and> row_z (Some (- 1), Some 0, 600, 0 :: real) > 511 \<longrightarrow>
     map_of (makeEvent_step sample_generator 1 (Some (- 1), Some 0, 600, 0) []) 1
       = Some (replicate 512 0)"
    by blast
  then have s: "map_of (makeEvent_step sample_generator 1 (Some (- 1), Some 0, 600, 0) []) 1
                  = Some (replicate 512 0)"
    by (simp add: event_ok_Nil row_z_def)
  from t s show ?thesis by blast
qed


section \<open>Peak table\<close>

lemma vmax_Max: "sig \<noteq> [] \<Longrightarrow> vmax sig = Max (set sig)"
proof (cases sig)
  case Nil
  assume "sig \<noteq> []"
  with Nil show ?thesis by simp
next
  case (Cons a list)
  show ?thesis
    unfolding Cons vmax_def by (simp only: list.sel Max.set_eq_fold)
qed

lemma set_pkPts: "sig \<noteq> [] \<Longrightarrow> set (pkPts sig) = peak_set sig"
  by (auto simp: pkPts_def peak_set_def vmax_Max)

lemma distinct_pkPts: "distinct (pkPts sig)"
  by (simp add: pkPts_def)

lemma sum_pkVals: "sig \<noteq> [] \<Longrightarrow> sum_list (pkVals sig) = thresholded_sum sig"
  unfolding pkVals_def thresholded_sum_def
  by (simp add: sum_list_distinct_conv_sum_set distinct_pkPts set_pkPts)

lemma dot_pkPts:
  "sig \<noteq> [] \<Longrightarrow> dot (pkPts sig) (pkVals sig) = (\<Sum>i \<in> peak_set sig. of_nat i * sig ! i)"
proof -
  assume ne: "sig \<noteq> []"
  have "zip (pkPts sig) (pkVals sig) = map (\<lambda>i. (i, sig ! i)) (pkPts sig)"
    unfolding pkVals_def by (simp add: zip_map2 zip_same_conv_map)
  then have "dot (pkPts sig) (pkVals sig) = sum_list (map (\<lambda>i. of_nat i * sig ! i) (pkPts sig))"
    by (simp add: dot_def comp_def)
  also have "\<dots> = (\<Sum>i \<in> peak_set sig. of_nat i * sig ! i)"
    using ne by (simp add: sum_list_distinct_conv_sum_set distinct_pkPts set_pkPts)
  finally show ?thesis .
qed

lemma peak_row_of_spec: "sig \<noteq> [] \<Longrightarrow> peak_row_of g padNum sig = spec_peak_row g (padNum, sig)"
  by (simp add: peak_row_of_def spec_peak_row_def Let_def centroid_def dot_pkPts sum_pkVals vmax_Max)

lemma peaks_loop_filter:
  "event_ok evt \<Longrightarrow>
   peaks_loop g evt rows = Inr (rows @ map (spec_peak_row g) (filter above_floor evt))"
proof (induction evt arbitrary: rows)
  case Nil
  then show ?case by simp
next
  case (Cons pr evt)
  obtain padNum sig where pr: "pr = (padNum, sig)" by (cases pr) auto
  from Cons.prems pr have l: "length sig = 512" and ok: "event_ok evt"
    by (auto simp: event_ok_def)
  from l have ne: "sig \<noteq> []" by auto
  show ?case
    using ne Cons.IH [OF ok]
    by (simp add: pr Let_def sum_pkVals peak_row_of_spec above_floor_def)
qed

lemma peak_set_max_nonpositive:
  assumes "sig \<noteq> []" and "Max (set sig) \<le> 0"
  shows "peak_set sig = {}"
proof -
  have "sig ! i \<le> (3 / 10) * Max (set sig)" if "i < length sig" for i
  proof -
    from that have "sig ! i \<le> Max (set sig)" by simp
    with assms(2) show ?thesis by simp
  qed
  then show ?thesis by (auto simp: peak_set_def not_less [symmetric])
qed


lemma makeEvent_event_ok: "makeEvent g pos en = Inr evt \<Longrightarrow> event_ok evt"
  by (auto simp: makeEvent_def makeEvent_loop_foldl event_ok_foldl event_ok_Nil
      split: sum.splits if_splits)

lemma above_floor_max_nonpositive:
  assumes "snd pr \<noteq> []" and "Max (set (snd pr)) \<le> 0"
  shows "\<not> above_floor pr"
  using peak_set_max_nonpositive [OF assms]
  by (simp add: above_floor_def thresholded_sum_def)

lemma makeEvent_step_sample:
  "makeEvent_step sample_generator cf (Some 200, Some 0, 600, n) evt = evt"
  "makeEvent_step sample_generator cf (Some (- 1), Some 0, 600, n) [] = [(1, replicate 512 0)]"
  "makeEvent_step sample_generator cf (Some (- 1), Some 0, 600, n) [(1, replicate 512 0)]
     = [(1, replicate 512 0)]"
  by (simp_all add: makeEvent_step_def row_x_def row_y_def row_z_def sample_generator_def
      two_pads_def Let_def)

lemma makeEvent_sample:
  "makeEvent sample_generator [(- 1, 0, 6), (200, 0, 6)] [3, 1] = Inr [(1, replicate 512 0)]"
  unfolding makeEvent_foldl [OF prepareTrack_sample]
  by (simp add: makeEvent_step_sample)

text \<open>A signal with one sample of height 1, in the last time bucket.\<close>

lemma spike_nth: "i < 512 \<Longrightarrow> (replicate 512 (0::real))[511 := 1] ! i = (if i = 511 then 1 else 0)"
  by (simp add: nth_list_update)

lemma spike_Max: "Max (set ((replicate 512 (0::real))[511 := 1])) = 1"
proof (rule Max_eqI)
  show "finite (set ((replicate 512 (0::real))[511 := 1]))" by simp
next
  fix y :: real
  assume "y \<in> set ((replicate 512 (0::real))[511 := 1])"
  then obtain i where "i < 512" "y = (replicate 512 (0::real))[511 := 1] ! i"
    by (auto simp: in_set_conv_nth)
  then show "y \<le> 1" by (simp add: spike_nth)
next
  have "(replicate 512 (0::real))[511 := 1] ! 511 \<in> set ((replicate 512 (0::real))[511 := 1])"
    by (rule nth_mem) simp
  then show "1 \<in> set ((replicate 512 (0::real))[511 := 1])"
    by (simp add: spike_nth)
qed

lemma spike_peak_set: "peak_set ((replicate 512 (0::real))[511 := 1]) = {511}"
  unfolding peak_set_def spike_Max
  by (auto simp: spike_nth split: if_splits)

lemma spike_row:
  "spec_peak_row sample_generator (2, (replicate 512 0)[511 := 1]) = (50, 0, 511, 1, 2)"
  by (simp add: spec_peak_row_def centroid_def thresholded_sum_def spike_peak_set spike_Max
      spike_nth sample_generator_def two_pads_def)

lemma spike_above_floor: "above_floor (2, (replicate 512 0)[511 := 1])"
  by (simp add: above_floor_def thresholded_sum_def spike_peak_set spike_nth)

text \<open>
  Claim C5, as amended. For each pad of the event, in the order of the pad numbers, the
  peak table holds the row (pad center x, pad center y, time centroid, peak amplitude,
  pad id) when the sum of the samples that exceed 30% of the pad's maximum is at least
  \<open>1e-3\<close>, and no row otherwise; the centroid is the charge-weighted one over those
  samples. A sample that equals 30% of the maximum is not among them. A pad whose
  maximum is not positive has no row: so an all-zero signal, whose maximum is exactly
  at its 30% threshold, has none.
\<close>

theorem peak_table_rows:
  "(event_ok evt \<longrightarrow>
      peaks_loop g evt [] = Inr (map (spec_peak_row g) (filter above_floor evt)) \<and>
      (\<forall>pr \<in> set evt. Max (set (snd pr)) \<le> 0 \<longrightarrow> \<not> above_floor pr)) \<and>
   (makeEvent g pos en = Inr evt \<longrightarrow>
      event_ok evt \<and>
      makePeaksTableFromSimulation g pos en
        = Inr (map (spec_peak_row g) (filter above_floor evt))) \<and>
   (\<forall>i. i \<in> peak_set sig \<longrightarrow> sig ! i \<noteq> (3 / 10) * Max (set sig)) \<and>
   (above_floor (padNum, sig) \<longleftrightarrow> \<not> thresholded_sum sig < 1 / 1000)"
proof (intro conjI impI allI ballI)
  assume ok: "event_ok evt"
  from peaks_loop_filter [OF ok, of g "[]"]
  show "peaks_loop g evt [] = Inr (map (spec_peak_row g) (filter above_floor evt))"
    by simp
next
  fix pr
  assume ok: "event_ok evt" and pr: "pr \<in> set evt" and m: "Max (set (snd pr)) \<le> 0"
  from ok pr have "length (snd pr) = 512" by (auto simp: event_ok_def)
  then have "snd pr \<noteq> []" by auto
  then show "\<not> above_floor pr" using m by (rule above_floor_max_nonpositive)
next
  assume m: "makeEvent g pos en = Inr evt"
  then show ok: "event_ok evt" by (rule makeEvent_event_ok)
  from peaks_loop_filter [OF ok, of g "[]"] m
  show "makePeaksTableFromSimulation g pos en
          = Inr (map (spec_peak_row g) (filter above_floor evt))"
    by (simp add: makePeaksTableFromSimulation_def)
next
  fix i
  assume "i \<in> peak_set sig"
  then show "sig ! i \<noteq> (3 / 10) * Max (set sig)" by (simp add: peak_set_def)
next
  show "above_floor (padNum, sig) \<longleftrightarrow> \<not> thresholded_sum sig < 1 / 1000"
    by (simp add: above_floor_def)
qed

theorem peak_table_rows_witness:
  "peaks_loop sample_generator [(1, replicate 512 0), (2, (replicate 512 0)[511 := 1])] []
     = Inr [(50, 0, 511, 1, 2)] \<and>
   makePeaksTableFromSimulation sample_generator [(- 1, 0, 6), (200, 0, 6)] [3, 1] = Inr []"
proof -
  let ?evt = "[(1, replicate 512 0), (2, (replicate 512 0)[511 := 1])] :: event"
  have ok: "event_ok ?evt" by (simp add: event_ok_def)
  have z: "\<not> above_floor (1 :: pad_t, replicate 512 (0::real))"
    by (rule above_floor_max_nonpositive) simp_all
  note t1 = peak_table_rows [of ?evt sample_generator "[]" "[]" "[]" 1]
  from t1 ok have "peaks_loop sample_generator ?evt []
                     = Inr (map (spec_peak_row sample_generator) (filter above_floor ?evt))"
    by blast
  then have a: "peaks_loop sample_generator ?evt [] = Inr [(50, 0, 511, 1, 2)]"
    by (simp add: z spike_above_floor spike_row)
  note t2 = peak_table_rows [of "[(1, replicate 512 0)]" sample_generator
      "[(- 1, 0, 6), (200, 0, 6)]" "[3, 1]" "[]" 1]
  from t2 makeEvent_sample have
    "makePeaksTableFromSimulation sample_generator [(- 1, 0, 6), (200, 0, 6)] [3, 1]
       = Inr (map (spec_peak_row sample_generator) (filter above_floor [(1, replicate 512 0)]))"
    by blast
  then have b: "makePeaksTableFromSimulation sample_generator [(- 1, 0, 6), (200, 0, 6)] [3, 1] = Inr []"
    by (simp add: z)
  from a b show ?thesis by simp
qed

text \<open>
  Claim C5 as stated has a pad signal whose maximum is exactly at the 30% threshold
  included. The track of two points at the time bucket 600 gives pad 1 the all-zero
  signal: its maximum 0 equals 30% of itself, and the peak table has no row for it.
\<close>

theorem peak_table_boundary_excluded:
  "makeEvent sample_generator [(- 1, 0, 6), (200, 0, 6)] [3, 1] = Inr [(1, replicate 512 0)] \<and>
   vmax (replicate 512 0) = (3 / 10) * vmax (replicate 512 0) \<and>
   makePeaksTableFromSimulation sample_generator [(- 1, 0, 6), (200, 0, 6)] [3, 1] = Inr []"
proof -
  have v: "vmax (replicate 512 0) = 0"
    by (simp add: vmax_Max)
  have z: "\<not> above_floor (1 :: pad_t, replicate 512 (0::real))"
    by (rule above_floor_max_nonpositive) simp_all
  have ok: "event_ok [(1, replicate 512 0)]" by (simp add: event_ok_def)
  have "makePeaksTableFromSimulation sample_generator [(- 1, 0, 6), (200, 0, 6)] [3, 1] = Inr []"
    using peaks_loop_filter [OF ok, of sample_generator "[]"] z
    by (simp add: makePeaksTableFromSimulation_def makeEvent_sample)
  with v makeEvent_sample show ?thesis by simp
qed


section \<open>Sampled parameter vectors stay within the bounds\<close>

lemma clip_bounds: "lo \<le> hi \<Longrightarrow> lo \<le> clip lo hi x \<and> clip lo hi x \<le> hi"
  by (simp add: clip_def)

lemma makeParams_in_bounds:
  assumes "makeParams ctr sigma numSets mins maxes draws = Inr ps"
  shows "\<forall>v \<in> set ps. in_bounds mins maxes v"
proof -
  let ?n = "length ctr"
  from assms have len: "length mins = ?n"
    and ord: "\<forall>i < ?n. mins ! i \<le> maxes ! i"
    and ps: "ps = map (\<lambda>d. map (\<lambda>i. clip (mins ! i) (maxes ! i) (ctr ! i + sigma ! i * d ! i))
                              [0..<?n]) draws"
    by (auto simp: makeParams_def Let_def not_less split: if_splits)
  show ?thesis
    unfolding ps using len ord by (auto simp: in_bounds_def clip_bounds)
qed

lemma makeParams_Inr:
  assumes "length sigma = length ctr" "length mins = length ctr" "length maxes = length ctr"
    and "length draws = numSets" "\<forall>d \<in> set draws. length d = length ctr"
    and "\<forall>i < length ctr. mins ! i \<le> maxes ! i"
  shows "\<exists>ps. makeParams ctr sigma numSets mins maxes draws = Inr ps \<and> length ps = numSets"
  using assms by (auto simp: makeParams_def Let_def not_less [symmetric])

lemma minimize_loop_in_bounds:
  "minimize_loop score mins maxes numPts redFactor ds ctr sigma hist = Inr (best, hist') \<Longrightarrow>
   \<forall>v \<in> set hist. in_bounds mins maxes v \<Longrightarrow>
   \<forall>v \<in> set hist'. in_bounds mins maxes v"
proof (induction ds arbitrary: ctr sigma hist)
  case Nil
  then show ?case by simp
next
  case (Cons d ds)
  from Cons.prems(1) obtain ps where
    ps: "makeParams ctr sigma numPts mins maxes d = Inr ps" and ne: "ps \<noteq> []"
    and rest: "minimize_loop score mins maxes numPts redFactor ds (best_of score ps)
                 (map (\<lambda>s. s * redFactor) sigma) (hist @ ps) = Inr (best, hist')"
    by (auto split: sum.splits if_splits)
  have "\<forall>v \<in> set (hist @ ps). in_bounds mins maxes v"
    using Cons.prems(2) makeParams_in_bounds [OF ps] by auto
  with rest show ?case by (rule Cons.IH)
qed

text \<open>
  Claim C3. Every parameter vector that \<open>makeParams\<close> produces lies within the bounds
  component by component, and so does every vector in the history of the vectors that
  \<open>minimize\<close> sampled, over all iterations. On vectors of one shape with
  \<open>mins \<le> maxes\<close>, \<open>makeParams\<close> produces its \<open>numSets\<close> vectors.
\<close>

theorem makeParams_bounds:
  "(makeParams ctr sigma numSets mins maxes draws = Inr ps \<longrightarrow>
      (\<forall>v \<in> set ps. \<forall>i < length v. mins ! i \<le> v ! i \<and> v ! i \<le> maxes ! i)) \<and>
   (minimize score ctr sigma mins maxes numIters numPts redFactor iterdraws = Inr (best, hist) \<longrightarrow>
      (\<forall>v \<in> set hist. \<forall>i < length v. mins ! i \<le> v ! i \<and> v ! i \<le> maxes ! i)) \<and>
   (length sigma = length ctr \<and> length mins = length ctr \<and> length maxes = length ctr \<and>
    length draws = numSets \<and> (\<forall>d \<in> set draws. length d = length ctr) \<and>
    (\<forall>i < length ctr. mins ! i \<le> maxes ! i) \<longrightarrow>
      (\<exists>qs. makeParams ctr sigma numSets mins maxes draws = Inr qs \<and> length qs = numSets))"
proof (intro conjI impI)
  assume "makeParams ctr sigma numSets mins maxes draws = Inr ps"
  from makeParams_in_bounds [OF this]
  show "\<forall>v \<in> set ps. \<forall>i < length v. mins ! i \<le> v ! i \<and> v ! i \<le> maxes ! i"
    by (auto simp: in_bounds_def)
next
  assume "minimize score ctr sigma mins maxes numIters numPts redFactor iterdraws = Inr (best, hist)"
  then have "minimize_loop score mins maxes numPts redFactor iterdraws ctr sigma [] = Inr (best, hist)"
    by (simp add: minimize_def split: if_splits)
  from minimize_loop_in_bounds [OF this]
  show "\<forall>v \<in> set hist. \<forall>i < length v. mins ! i \<le> v ! i \<and> v ! i \<le> maxes ! i"
    by (auto simp: in_bounds_def)
next
  assume "length sigma = length ctr \<and> length mins = length ctr \<and> length maxes = length ctr \<and>
    length draws = numSets \<and> (\<forall>d \<in> set draws. length d = length ctr) \<and>
    (\<forall>i < length ctr. mins ! i \<le> maxes ! i)"
  then show "\<exists>qs. makeParams ctr sigma numSets mins maxes draws = Inr qs \<and> length qs = numSets"
    by (intro makeParams_Inr) simp_all
qed

theorem makeParams_bounds_witness:
  "makeParams [0, 10] [1, 2] 2 [- 1, 9] [1, 11] [[3, 0], [- (1 / 2), - 4]]
     = Inr [[1, 10], [- (1 / 2), 9]] \<and>
   minimize (\<lambda>v. v ! 0 * v ! 0) [0, 10] [1, 2] [- 1, 9] [1, 11] 2 2 (1 / 2)
       [[[3, 0], [- (1 / 2), - 4]], [[1, 1], [3, 3]]]
     = Inr ([0, 10], [[1, 10], [- (1 / 2), 9], [0, 10], [1, 11]]) \<and>
   [- 1, 9] ! 1 \<le> [1, 11 :: real] ! 1 \<and> [1, 11 :: real] ! 1 \<le> [1, 11] ! 1 \<and>
   (\<exists>qs. makeParams [0, 10] [1, 2] 2 [- 1, 9] [1, 11] [[3, 0], [- (1 / 2), - 4]] = Inr qs \<and>
         length qs = 2)"
proof -
  have upt2: "[0..<2] = [0, 1]" by (simp add: upt_rec)
  have m: "makeParams [0, 10] [1, 2] 2 [- 1, 9] [1, 11] [[3, 0], [- (1 / 2), - 4]]
             = Inr [[1, 10], [- (1 / 2), 9]]"
    by (simp add: makeParams_def Let_def upt2 clip_def)
  have m2: "makeParams [- (1 / 2), 9] [1 / 2, 1] 2 [- 1, 9] [1, 11] [[1, 1], [3, 3]]
             = Inr [[0, 10], [1, 11]]"
    by (simp add: makeParams_def Let_def upt2 clip_def)
  have mm: "minimize (\<lambda>v. v ! 0 * v ! 0) [0, 10] [1, 2] [- 1, 9] [1, 11] 2 2 (1 / 2)
              [[[3, 0], [- (1 / 2), - 4]], [[1, 1], [3, 3]]]
            = Inr ([0, 10], [[1, 10], [- (1 / 2), 9], [0, 10], [1, 11]])"
    by (simp add: minimize_def m m2 best_of_def)
  have shape: "length [1, 2 :: real] = length [0, 10 :: real] \<and>
               length [- 1, 9 :: real] = length [0, 10 :: real] \<and>
               length [1, 11 :: real] = length [0, 10 :: real] \<and>
               length [[3, 0], [- (1 / 2), - 4 :: real]] = 2 \<and>
               (\<forall>d \<in> set [[3, 0], [- (1 / 2), - 4 :: real]]. length d = length [0, 10 :: real]) \<and>
               (\<forall>i < length [0, 10 :: real]. [- 1, 9 :: real] ! i \<le> [1, 11] ! i)"
    by (auto simp: less_Suc_eq numeral_2_eq_2)
  note t = makeParams_bounds [of "[0, 10]" "[1, 2]" 2 "[- 1, 9]" "[1, 11]"
      "[[3, 0], [- (1 / 2), - 4]]" "[[1, 10], [- (1 / 2), 9]]" "\<lambda>v. v ! 0 * v ! 0" 2 2 "1 / 2"
      "[[[3, 0], [- (1 / 2), - 4]], [[1, 1], [3, 3]]]" "[0, 10]"
      "[[1, 10], [- (1 / 2), 9], [0, 10], [1, 11]]"]
  from t mm have h: "\<forall>v \<in> set [[1, 10], [- (1 / 2), 9], [0, 10], [1, 11 :: real]].
      \<forall>i < length v. [- 1, 9] ! i \<le> v ! i \<and> v ! i \<le> [1, 11] ! i"
    by blast
  from t shape have e: "\<exists>qs. makeParams [0, 10] [1, 2] 2 [- 1, 9] [1, 11] [[3, 0], [- (1 / 2), - 4]] = Inr qs \<and>
         length qs = 2"
    by blast
  have "[1, 11 :: real] \<in> set [[1, 10], [- (1 / 2), 9], [0, 10], [1, 11 :: real]]" by simp
  with h have "\<forall>i < length [1, 11 :: real]. [- 1, 9] ! i \<le> [1, 11 :: real] ! i \<and> [1, 11 :: real] ! i \<le> [1, 11] ! i"
    by blast
  then have b: "[- 1, 9] ! 1 \<le> [1, 11 :: real] ! 1 \<and> [1, 11 :: real] ! 1 \<le> [1, 11] ! 1"
    by simp
  from m mm b e show ?thesis by blast
qed

end
